theory Spec2Isabelle
  imports Main "HOL-Library.Sublist" "HOL-Library.AList"
begin

section \<open>prune-globals: the syntax tree and token model\<close>

text \<open>
  The script reads three things of a parsed file: the \<open>type\<close> of each top-level node of
  \<open>tree.body\<close>, the \<open>specifiers\<close> of an import declaration, and the \<open>type\<close> and
  \<open>value\<close> of each entry of \<open>tree.tokens\<close>. An import specifier is one of the three
  ESTree kinds; only \<open>ImportSpecifier\<close> has an \<open>imported\<close> field.
  Strings are lists of code units below 256.
\<close>

datatype error = TypeError | ReadError | DirectoryReadError

datatype specifier =
    ImportSpecifier string string
  | ImportDefaultSpecifier string
  | ImportNamespaceSpecifier string

text \<open>\<open>ImportSpecifier imported local\<close> is \<open>import { imported as local }\<close>.\<close>

datatype node = ImportDeclaration "specifier list" | OtherNode string

datatype token_type =
    Identifier | Keyword | Punctuator | String | Numeric | Template
  | RegularExpression | Boolean | Null | PrivateIdentifier

record token =
  ttype :: token_type
  tvalue :: string

record program =
  body :: "node list"
  tokens :: "token list"

text \<open>
  \<open>specifier.imported\<close>: defined for a named specifier, \<open>undefined\<close> (here \<open>None\<close>) for a
  default or namespace specifier, on which reading \<open>.name\<close> throws a TypeError.
\<close>

fun imported :: "specifier \<Rightarrow> string option" where
  "imported (ImportSpecifier i l) = Some i"
| "imported (ImportDefaultSpecifier l) = None"
| "imported (ImportNamespaceSpecifier l) = None"

fun local_name :: "specifier \<Rightarrow> string" where
  "local_name (ImportSpecifier i l) = l"
| "local_name (ImportDefaultSpecifier l) = l"
| "local_name (ImportNamespaceSpecifier l) = l"

section \<open>findDependencies\<close>

text \<open>
  The inner loop over \<open>node.specifiers\<close> (lines 66-72): \<open>Inr True\<close> when a specifier's
  imported name is the identifier (the \<open>break\<close>), \<open>Inr False\<close> when the list is exhausted,
  \<open>Inl TypeError\<close> when \<open>specifier.imported\<close> is undefined.
\<close>

fun scan_specifiers :: "string \<Rightarrow> specifier list \<Rightarrow> error + bool" where
  "scan_specifiers identifier [] = Inr False"
| "scan_specifiers identifier (sp # sps) =
     (case imported sp of
        None \<Rightarrow> Inl TypeError
      | Some name \<Rightarrow> if name = identifier then Inr True else scan_specifiers identifier sps)"

text \<open>
  The outer loop over \<open>tree.body\<close> (lines 64-74), threading \<open>foundImport\<close>. The \<open>break\<close>
  leaves only the inner loop, so later nodes are still visited.
\<close>

fun scan_body :: "string \<Rightarrow> bool \<Rightarrow> node list \<Rightarrow> error + bool" where
  "scan_body identifier foundImport [] = Inr foundImport"
| "scan_body identifier foundImport (ImportDeclaration sps # nodes) =
     (case scan_specifiers identifier sps of
        Inl e \<Rightarrow> Inl e
      | Inr found \<Rightarrow> scan_body identifier (foundImport \<or> found) nodes)"
| "scan_body identifier foundImport (OtherNode ty # nodes) =
     scan_body identifier foundImport nodes"

text \<open>The loop over \<open>tree.tokens\<close> (lines 81-88): is there an Identifier token with that value?\<close>

fun scan_tokens :: "string \<Rightarrow> token list \<Rightarrow> bool" where
  "scan_tokens identifier [] = False"
| "scan_tokens identifier (t # ts) =
     (if ttype t = Identifier \<and> tvalue t = identifier then True
      else scan_tokens identifier ts)"

text \<open>
  \<open>findDependencies(identifier, fileContentTree, excludeFiles)\<close>. The object
  \<open>fileContentTree\<close> is the list of its entries in insertion order (\<open>Object.entries\<close>);
  \<open>dependencies.push(filePath)\<close> puts the path in front of what the rest of the loop adds.
\<close>

fun findDependencies ::
  "string \<Rightarrow> (string \<times> program) list \<Rightarrow> string list \<Rightarrow> error + string list" where
  "findDependencies identifier [] excludeFiles = Inr []"
| "findDependencies identifier ((filePath, tree) # entries) excludeFiles =
     (if filePath \<in> set excludeFiles then findDependencies identifier entries excludeFiles
      else
        (case scan_body identifier False (body tree) of
           Inl e \<Rightarrow> Inl e
         | Inr foundImport \<Rightarrow>
             if foundImport then findDependencies identifier entries excludeFiles
             else if scan_tokens identifier (tokens tree) then
               (case findDependencies identifier entries excludeFiles of
                  Inl e \<Rightarrow> Inl e
                | Inr dependencies \<Rightarrow> Inr (filePath # dependencies))
             else findDependencies identifier entries excludeFiles))"

section \<open>Regular expressions with backtracking\<close>

text \<open>
  The two regular expressions of the script use literals, \<open>.*\<close>, \<open>.*?\<close>, \<open>\s*\<close>, \<open>(...)?\<close>,
  capture groups and concatenation. The matcher below is the backtracking matcher of the
  ECMAScript specification for these forms, in continuation-passing style: each form tries
  its alternatives in priority order and hands the remaining input to the continuation;
  the first alternative on which the continuation succeeds wins.
\<close>

datatype char_class = AnyChar | WhiteSpace

text \<open>
  \<open>.\<close> (without the \<open>s\<close> flag) is any code unit but a line terminator; \<open>\s\<close> is white
  space and line terminators. Below 256 these are LF, CR and TAB, LF, VT, FF, CR, SP, NBSP.
\<close>

fun in_class :: "char_class \<Rightarrow> char \<Rightarrow> bool" where
  "in_class AnyChar c = (c \<noteq> CHR 0x0A \<and> c \<noteq> CHR 0x0D)"
| "in_class WhiteSpace c =
     (c = CHR 0x09 \<or> c = CHR 0x0A \<or> c = CHR 0x0B \<or> c = CHR 0x0C \<or> c = CHR 0x0D
      \<or> c = CHR 0x20 \<or> c = CHR 0xA0)"

datatype regex =
    Lit string
  | Star char_class
  | LazyStar char_class
  | Opt regex
  | Group nat regex
  | Cat regex regex

type_synonym captures = "nat \<Rightarrow> string option"

fun strip_prefix :: "string \<Rightarrow> string \<Rightarrow> string option" where
  "strip_prefix [] s = Some s"
| "strip_prefix (p # ps) [] = None"
| "strip_prefix (p # ps) (c # cs) = (if p = c then strip_prefix ps cs else None)"

text \<open>Greedy star: take a character if possible, and give it back when the rest fails.\<close>

fun star_greedy :: "(char \<Rightarrow> bool) \<Rightarrow> string \<Rightarrow> (string \<Rightarrow> 'a option) \<Rightarrow> 'a option" where
  "star_greedy P [] k = k []"
| "star_greedy P (c # cs) k =
     (if P c then (case star_greedy P cs k of Some r \<Rightarrow> Some r | None \<Rightarrow> k (c # cs))
      else k (c # cs))"

text \<open>Lazy star: try the rest first, and take a character only when the rest fails.\<close>

fun star_lazy :: "(char \<Rightarrow> bool) \<Rightarrow> string \<Rightarrow> (string \<Rightarrow> 'a option) \<Rightarrow> 'a option" where
  "star_lazy P [] k = k []"
| "star_lazy P (c # cs) k =
     (case k (c # cs) of
        Some r \<Rightarrow> Some r
      | None \<Rightarrow> if P c then star_lazy P cs k else None)"

text \<open>
  \<open>matcher re s caps k\<close>: match \<open>re\<close> at the front of \<open>s\<close> with the captures so far.
  \<open>Opt\<close> is the greedy \<open>?\<close>: the body first (an empty iteration is rejected, as the
  specification's RepeatMatcher does), then nothing. \<open>Group n\<close> records what its body consumed.
\<close>

fun matcher ::
  "regex \<Rightarrow> string \<Rightarrow> captures \<Rightarrow> (string \<Rightarrow> captures \<Rightarrow> 'a option) \<Rightarrow> 'a option" where
  "matcher (Lit l) s caps k =
     (case strip_prefix l s of None \<Rightarrow> None | Some s' \<Rightarrow> k s' caps)"
| "matcher (Star cc) s caps k = star_greedy (in_class cc) s (\<lambda>s'. k s' caps)"
| "matcher (LazyStar cc) s caps k = star_lazy (in_class cc) s (\<lambda>s'. k s' caps)"
| "matcher (Opt r) s caps k =
     (case matcher r s caps (\<lambda>s' caps'. if length s' = length s then None else k s' caps') of
        Some res \<Rightarrow> Some res
      | None \<Rightarrow> k s caps)"
| "matcher (Group n r) s caps k =
     matcher r s caps (\<lambda>s' caps'. k s' (caps'(n \<mapsto> take (length s - length s') s)))"
| "matcher (Cat r1 r2) s caps k =
     matcher r1 s caps (\<lambda>s' caps'. matcher r2 s' caps' k)"

text \<open>
  One attempt at the front of \<open>s\<close>: the matched text, the captures and the rest of the input.
\<close>

definition regex_exec :: "regex \<Rightarrow> string \<Rightarrow> (string \<times> captures \<times> string) option" where
  "regex_exec re s =
     matcher re s (\<lambda>n. None) (\<lambda>s' caps. Some (take (length s - length s') s, caps, s'))"

text \<open>\<open>str.match(re)\<close> used as a truth value: is there a match at some position?\<close>

fun regex_test :: "regex \<Rightarrow> string \<Rightarrow> bool" where
  "regex_test re [] = (regex_exec re [] \<noteq> None)"
| "regex_test re (c # cs) = (if regex_exec re (c # cs) \<noteq> None then True else regex_test re cs)"

text \<open>
  \<open>str.replace(re, f)\<close> for a global \<open>re\<close> and a function \<open>f\<close>: the leftmost match from the
  current position is replaced by what \<open>f\<close> returns, the text before it is kept, and the
  search goes on behind the match (one character further after an empty match). An
  exception in \<open>f\<close> ends the whole call.
\<close>

function js_replace ::
  "regex \<Rightarrow> (string \<Rightarrow> captures \<Rightarrow> error + string) \<Rightarrow> string \<Rightarrow> error + string" where
  "js_replace re f s =
     (case regex_exec re s of
        None \<Rightarrow>
          (case s of
             [] \<Rightarrow> Inr []
           | c # cs \<Rightarrow>
               (case js_replace re f cs of Inl e \<Rightarrow> Inl e | Inr t \<Rightarrow> Inr (c # t)))
      | Some (m, caps, rest) \<Rightarrow>
          (case f m caps of
             Inl e \<Rightarrow> Inl e
           | Inr r \<Rightarrow>
               if m = [] then
                 (case s of
                    [] \<Rightarrow> Inr r
                  | c # cs \<Rightarrow>
                      (case js_replace re f cs of Inl e \<Rightarrow> Inl e | Inr t \<Rightarrow> Inr (r @ c # t)))
               else
                 (case js_replace re f rest of Inl e \<Rightarrow> Inl e | Inr t \<Rightarrow> Inr (r @ t))))"
  by pat_completeness auto

section \<open>The file system and paths\<close>

text \<open>
  The disk maps a path to the content of the file there. \<open>fs.readFileSync\<close> throws when
  there is no such file; \<open>fs.writeFileSync\<close> replaces the content (a write is taken to
  succeed).
\<close>

type_synonym disk = "string \<rightharpoonup> string"

definition readFile :: "disk \<Rightarrow> string \<Rightarrow> error + string" where
  "readFile d filePath = (case d filePath of None \<Rightarrow> Inl ReadError | Some content \<Rightarrow> Inr content)"

definition writeFile :: "disk \<Rightarrow> string \<Rightarrow> string \<Rightarrow> disk" where
  "writeFile d filePath content = d(filePath \<mapsto> content)"

definition srcDir :: string where
  "srcDir = ''./src''"

text \<open>
  Node's \<open>path\<close> module on POSIX, for the arguments the script passes: a directory entry
  name (no separator in it) joined to \<open>srcDir\<close>, and such a joined path made relative to
  \<open>srcDir\<close>. \<open>path.join\<close> normalises the leading \<open>./\<close> away.
\<close>

definition normalize :: "string \<Rightarrow> string" where
  "normalize p = (case strip_prefix ''./'' p of Some r \<Rightarrow> r | None \<Rightarrow> p)"

definition path_join :: "string \<Rightarrow> string \<Rightarrow> string" where
  "path_join dir file = normalize (dir @ ''/'' @ file)"

definition path_relative :: "string \<Rightarrow> string \<Rightarrow> string" where
  "path_relative from to =
     (case strip_prefix (normalize from @ ''/'') (normalize to) of
        Some r \<Rightarrow> r
      | None \<Rightarrow> ''../'' @ normalize to)"

text \<open>
  \<open>path.extname\<close> of an entry name: from the last dot to the end; empty when there is no
  dot, when the only dot is the first character, and for \<open>..\<close>.
\<close>

fun last_dot :: "string \<Rightarrow> string option" where
  "last_dot [] = None"
| "last_dot (c # cs) =
     (case last_dot cs of
        Some e \<Rightarrow> Some e
      | None \<Rightarrow> if c = CHR ''.'' then Some (c # cs) else None)"

definition path_extname :: "string \<Rightarrow> string" where
  "path_extname file =
     (case file of
        [] \<Rightarrow> []
      | c # cs \<Rightarrow>
          if file = ''..'' then []
          else (case last_dot cs of Some e \<Rightarrow> e | None \<Rightarrow> []))"

section \<open>Splitting a file at the marker\<close>

text \<open>\<open>content.indexOf(m)\<close>: the first position where \<open>m\<close> starts, \<open>None\<close> for \<open>-1\<close>.\<close>

fun indexOf :: "string \<Rightarrow> string \<Rightarrow> nat option" where
  "indexOf [] m = (if m = [] then Some 0 else None)"
| "indexOf (c # cs) m =
     (if prefix m (c # cs) then Some 0
      else (case indexOf cs m of None \<Rightarrow> None | Some i \<Rightarrow> Some (Suc i)))"

definition marker :: string where
  "marker = ''// Temporary globals''"

text \<open>Lines 115-122: the pair (upper content, lower content) of a file.\<close>

definition split_content :: "string \<Rightarrow> string \<times> string" where
  "split_content content =
     (case indexOf content marker of
        Some startIndex \<Rightarrow> (take startIndex content, drop startIndex content)
      | None \<Rightarrow> (content, []))"

section \<open>Reading and parsing the files\<close>

text \<open>
  The three objects \<open>fileUpperContent\<close>, \<open>fileUpperContentTree\<close> and \<open>fileLowerContent\<close>,
  each the list of its entries in insertion order. Assigning to a key that is present
  replaces its value in place, assigning to a new key appends the entry
  (\<^const>\<open>AList.update\<close>).
\<close>

record file_maps =
  fileUpperContent :: "(string \<times> string) list"
  fileUpperContentTree :: "(string \<times> program) list"
  fileLowerContent :: "(string \<times> string) list"

definition no_files :: file_maps where
  "no_files = \<lparr>fileUpperContent = [], fileUpperContentTree = [], fileLowerContent = []\<rparr>"

datatype source_type = Module | Script

text \<open>
  \<open>espree.parse\<close> is a library: it is a parameter of the model, from the source type and
  the text to the tree with its tokens, \<open>None\<close> when it throws on a syntax error.
\<close>

type_synonym parser = "source_type \<Rightarrow> string \<Rightarrow> program option"

text \<open>\<open>/import .* from/\<close>\<close>

definition import_from_re :: regex where
  "import_from_re = Cat (Lit ''import '') (Cat (Star AnyChar) (Lit '' from''))"

definition sourceType :: "string \<Rightarrow> source_type" where
  "sourceType upper = (if regex_test import_from_re upper then Module else Script)"

text \<open>
  The body of the first loop (lines 106-132) for one directory entry. A failing read
  is an exception nobody catches; a failing parse is caught and leaves the tree map as
  it is.
\<close>

definition load_file :: "parser \<Rightarrow> disk \<Rightarrow> file_maps \<Rightarrow> string \<Rightarrow> error + file_maps" where
  "load_file parse d st file =
     (if path_extname file = ''.js'' then
        (let filePath = path_join srcDir file in
         case readFile d filePath of
           Inl e \<Rightarrow> Inl e
         | Inr content \<Rightarrow>
             (let (upper, lower) = split_content content;
                  st' = st\<lparr>fileUpperContent := AList.update filePath upper (fileUpperContent st),
                           fileLowerContent := AList.update filePath lower (fileLowerContent st)\<rparr>
              in case parse (sourceType upper) upper of
                   None \<Rightarrow> Inr st'
                 | Some tree \<Rightarrow>
                     Inr (st'\<lparr>fileUpperContentTree :=
                                AList.update filePath tree (fileUpperContentTree st')\<rparr>)))
      else Inr st)"

fun load_files :: "parser \<Rightarrow> disk \<Rightarrow> file_maps \<Rightarrow> string list \<Rightarrow> error + file_maps" where
  "load_files parse d st [] = Inr st"
| "load_files parse d st (file # files) =
     (case load_file parse d st file of
        Inl e \<Rightarrow> Inl e
      | Inr st' \<Rightarrow> load_files parse d st' files)"

section \<open>Rewriting the lower content\<close>

text \<open>\<open>/(?:\/\/\s*)?(window\.(.*?) = .*;)(\s*\/\/.*)?/g\<close>\<close>

definition assignment_re :: regex where
  "assignment_re =
     Cat (Opt (Cat (Lit ''//'') (Star WhiteSpace)))
      (Cat (Group 1
              (Cat (Lit ''window.'')
                (Cat (Group 2 (LazyStar AnyChar))
                  (Cat (Lit '' = '') (Cat (Star AnyChar) (Lit '';''))))))
           (Opt (Group 3 (Cat (Star WhiteSpace) (Cat (Lit ''//'') (Star AnyChar))))))"

text \<open>
  An argument of the replace callback: the text of group \<open>n\<close>, and \<open>undefined\<close> as a
  template literal prints it when the group took no part in the match.
\<close>

definition capture :: "captures \<Rightarrow> nat \<Rightarrow> string" where
  "capture caps n = (case caps n of Some s \<Rightarrow> s | None \<Rightarrow> ''undefined'')"

fun join :: "string \<Rightarrow> string list \<Rightarrow> string" where
  "join sep [] = []"
| "join sep [x] = x"
| "join sep (x # y # ys) = x @ sep @ join sep (y # ys)"

definition formatPath :: "string \<Rightarrow> string" where
  "formatPath filePath =
     map (\<lambda>c. if c = CHR 0x5C then CHR ''/'' else c) (path_relative srcDir filePath)"

text \<open>The callback of \<open>replace\<close> (lines 142-152); \<open>match\<close> and \<open>comment\<close> are not used.\<close>

definition annotate ::
  "(string \<times> program) list \<Rightarrow> string \<Rightarrow> string \<Rightarrow> captures \<Rightarrow> error + string" where
  "annotate trees filePath match caps =
     (let assignment = capture caps 1; identifier = capture caps 2 in
      case findDependencies identifier trees [filePath] of
        Inl e \<Rightarrow> Inl e
      | Inr dependencies \<Rightarrow>
          (let formattedPaths = join '', '' (map formatPath dependencies) in
           if dependencies \<noteq> [] then Inr (assignment @ '' // may be used by '' @ formattedPaths)
           else Inr (''// '' @ assignment @ '' // unused'')))"

text \<open>
  \<open>updatedContent\<close> of one file (lines 137-153). The keys of the loop come from
  \<open>fileUpperContent\<close>, so the loop is over its entries; a key missing from
  \<open>fileLowerContent\<close> would make \<open>lower\<close> undefined and \<open>lower.replace\<close> throw.
\<close>

definition updatedContent :: "file_maps \<Rightarrow> string \<Rightarrow> string \<Rightarrow> error + string" where
  "updatedContent st filePath upper =
     (case map_of (fileLowerContent st) filePath of
        None \<Rightarrow> Inl TypeError
      | Some lower \<Rightarrow>
          (case js_replace assignment_re (annotate (fileUpperContentTree st) filePath) lower of
             Inl e \<Rightarrow> Inl e
           | Inr rewritten \<Rightarrow> Inr (upper @ rewritten)))"

text \<open>
  The second loop (lines 135-155): the maps are no longer changed, the disk is written file
  by file, and an exception leaves the files written so far on the disk.
\<close>

fun write_files :: "file_maps \<Rightarrow> (string \<times> string) list \<Rightarrow> disk \<Rightarrow> disk \<times> error option" where
  "write_files st [] d = (d, None)"
| "write_files st ((filePath, upper) # entries) d =
     (case updatedContent st filePath upper of
        Inl e \<Rightarrow> (d, Some e)
      | Inr content \<Rightarrow> write_files st entries (writeFile d filePath content))"

text \<open>
  \<open>processFiles\<close>: \<open>readdir\<close> is what \<open>fs.readdir\<close> hands to the callback, an error or the
  entry names of \<open>srcDir\<close>. The result is the disk afterwards and the error that ended
  the run, if any.
\<close>

definition processFiles :: "parser \<Rightarrow> error + string list \<Rightarrow> disk \<Rightarrow> disk \<times> error option" where
  "processFiles parse readdir d =
     (case readdir of
        Inl err \<Rightarrow> (d, Some DirectoryReadError)
      | Inr files \<Rightarrow>
          (case load_files parse d no_files files of
             Inl e \<Rightarrow> (d, Some e)
           | Inr st \<Rightarrow> write_files st (fileUpperContent st) d))"

section \<open>Predicates and inputs used in the statements\<close>

text \<open>
  Every import specifier of the file is a named one (\<open>import { a as b }\<close>): no default and
  no namespace specifier.
\<close>

definition named_imports_only :: "program \<Rightarrow> bool" where
  "named_imports_only tree =
     (\<forall>n \<in> set (body tree).
        case n of ImportDeclaration sps \<Rightarrow> (\<forall>sp \<in> set sps. imported sp \<noteq> None) | OtherNode ty \<Rightarrow> True)"

text \<open>
  The specifier lists the ECMAScript grammar of an import clause allows: a namespace
  import, a default import, a default import followed by a namespace import or by named
  imports, or named imports only. A parser produces no other list.
\<close>

fun import_clause :: "specifier list \<Rightarrow> bool" where
  "import_clause [ImportNamespaceSpecifier n] = True"
| "import_clause [ImportDefaultSpecifier d, ImportNamespaceSpecifier n] = True"
| "import_clause (ImportDefaultSpecifier d # sps) = (\<forall>sp \<in> set sps. imported sp \<noteq> None)"
| "import_clause sps = (\<forall>sp \<in> set sps. imported sp \<noteq> None)"

definition import_clauses_only :: "program \<Rightarrow> bool" where
  "import_clauses_only tree =
     (\<forall>n \<in> set (body tree).
        case n of ImportDeclaration sps \<Rightarrow> import_clause sps | OtherNode ty \<Rightarrow> True)"

text \<open>
  The set \<open>importedNames\<close> in the words of the specification: the bound local name of each
  named import of each top-level import declaration.
\<close>

fun spec_importedNames :: "program \<Rightarrow> string list" where
  "spec_importedNames tree =
     concat (map (\<lambda>n. case n of
                        ImportDeclaration sps \<Rightarrow>
                          concat (map (\<lambda>sp. case sp of ImportSpecifier i l \<Rightarrow> [l] | _ \<Rightarrow> []) sps)
                      | OtherNode ty \<Rightarrow> []) (body tree))"

text \<open>
  What a regular expression can match, without the order in which the matcher tries:
  \<open>rmatch re w caps caps'\<close> says that \<open>re\<close> can consume the text \<open>w\<close> and turn the
  captures \<open>caps\<close> into \<open>caps'\<close>.
\<close>

inductive rmatch :: "regex \<Rightarrow> string \<Rightarrow> captures \<Rightarrow> captures \<Rightarrow> bool" where
  rm_Lit: "rmatch (Lit l) l c c"
| rm_Star: "list_all (in_class cc) w \<Longrightarrow> rmatch (Star cc) w c c"
| rm_LazyStar: "list_all (in_class cc) w \<Longrightarrow> rmatch (LazyStar cc) w c c"
| rm_Opt_some: "rmatch r w c c' \<Longrightarrow> w \<noteq> [] \<Longrightarrow> rmatch (Opt r) w c c'"
| rm_Opt_none: "rmatch (Opt r) [] c c"
| rm_Group: "rmatch r w c c' \<Longrightarrow> rmatch (Group n r) w c (c'(n \<mapsto> w))"
| rm_Cat: "rmatch r1 w1 c c1 \<Longrightarrow> rmatch r2 w2 c1 c2 \<Longrightarrow> rmatch (Cat r1 r2) (w1 @ w2) c c2"

text \<open>Syntax trees of small files, as the parser gives them, for the concrete checks below.\<close>

text \<open>\<open>import { foo } from "./a.js"; foo();\<close>\<close>

definition prog_imports_foo :: program where
  "prog_imports_foo =
     \<lparr>body = [ImportDeclaration [ImportSpecifier ''foo'' ''foo''], OtherNode ''ExpressionStatement''],
      tokens = [\<lparr>ttype = Keyword, tvalue = ''import''\<rparr>, \<lparr>ttype = Punctuator, tvalue = ''{''\<rparr>,
                \<lparr>ttype = Identifier, tvalue = ''foo''\<rparr>, \<lparr>ttype = Punctuator, tvalue = ''}''\<rparr>,
                \<lparr>ttype = Identifier, tvalue = ''from''\<rparr>, \<lparr>ttype = String, tvalue = ''\"./a.js\"''\<rparr>,
                \<lparr>ttype = Punctuator, tvalue = '';''\<rparr>,
                \<lparr>ttype = Identifier, tvalue = ''foo''\<rparr>, \<lparr>ttype = Punctuator, tvalue = ''(''\<rparr>,
                \<lparr>ttype = Punctuator, tvalue = '')''\<rparr>, \<lparr>ttype = Punctuator, tvalue = '';''\<rparr>]\<rparr>"

text \<open>\<open>foo();\<close>\<close>

definition prog_calls_foo :: program where
  "prog_calls_foo =
     \<lparr>body = [OtherNode ''ExpressionStatement''],
      tokens = [\<lparr>ttype = Identifier, tvalue = ''foo''\<rparr>, \<lparr>ttype = Punctuator, tvalue = ''(''\<rparr>,
                \<lparr>ttype = Punctuator, tvalue = '')''\<rparr>, \<lparr>ttype = Punctuator, tvalue = '';''\<rparr>]\<rparr>"

text \<open>\<open>log("foo");\<close>\<close>

definition prog_string_foo :: program where
  "prog_string_foo =
     \<lparr>body = [OtherNode ''ExpressionStatement''],
      tokens = [\<lparr>ttype = Identifier, tvalue = ''log''\<rparr>, \<lparr>ttype = Punctuator, tvalue = ''(''\<rparr>,
                \<lparr>ttype = String, tvalue = ''\"foo\"''\<rparr>,
                \<lparr>ttype = Punctuator, tvalue = '')''\<rparr>, \<lparr>ttype = Punctuator, tvalue = '';''\<rparr>]\<rparr>"

text \<open>\<open>import { a as b } from "./m.js";\<close>\<close>

definition prog_import_renamed :: program where
  "prog_import_renamed =
     \<lparr>body = [ImportDeclaration [ImportSpecifier ''a'' ''b'']],
      tokens = [\<lparr>ttype = Keyword, tvalue = ''import''\<rparr>, \<lparr>ttype = Punctuator, tvalue = ''{''\<rparr>,
                \<lparr>ttype = Identifier, tvalue = ''a''\<rparr>, \<lparr>ttype = Identifier, tvalue = ''as''\<rparr>,
                \<lparr>ttype = Identifier, tvalue = ''b''\<rparr>, \<lparr>ttype = Punctuator, tvalue = ''}''\<rparr>,
                \<lparr>ttype = Identifier, tvalue = ''from''\<rparr>, \<lparr>ttype = String, tvalue = ''\"./m.js\"''\<rparr>,
                \<lparr>ttype = Punctuator, tvalue = '';''\<rparr>]\<rparr>"

text \<open>\<open>import { bar as foo } from "./m.js"; foo();\<close>\<close>

definition prog_import_as_foo :: program where
  "prog_import_as_foo =
     \<lparr>body = [ImportDeclaration [ImportSpecifier ''bar'' ''foo''], OtherNode ''ExpressionStatement''],
      tokens = [\<lparr>ttype = Keyword, tvalue = ''import''\<rparr>, \<lparr>ttype = Punctuator, tvalue = ''{''\<rparr>,
                \<lparr>ttype = Identifier, tvalue = ''bar''\<rparr>, \<lparr>ttype = Identifier, tvalue = ''as''\<rparr>,
                \<lparr>ttype = Identifier, tvalue = ''foo''\<rparr>, \<lparr>ttype = Punctuator, tvalue = ''}''\<rparr>,
                \<lparr>ttype = Identifier, tvalue = ''from''\<rparr>, \<lparr>ttype = String, tvalue = ''\"./m.js\"''\<rparr>,
                \<lparr>ttype = Punctuator, tvalue = '';''\<rparr>,
                \<lparr>ttype = Identifier, tvalue = ''foo''\<rparr>, \<lparr>ttype = Punctuator, tvalue = ''(''\<rparr>,
                \<lparr>ttype = Punctuator, tvalue = '')''\<rparr>, \<lparr>ttype = Punctuator, tvalue = '';''\<rparr>]\<rparr>"

text \<open>\<open>import d, { foo } from "./m.js";\<close>\<close>

definition prog_import_default :: program where
  "prog_import_default =
     \<lparr>body = [ImportDeclaration [ImportDefaultSpecifier ''d'', ImportSpecifier ''foo'' ''foo'']],
      tokens = [\<lparr>ttype = Keyword, tvalue = ''import''\<rparr>, \<lparr>ttype = Identifier, tvalue = ''d''\<rparr>,
                \<lparr>ttype = Punctuator, tvalue = '',''\<rparr>, \<lparr>ttype = Punctuator, tvalue = ''{''\<rparr>,
                \<lparr>ttype = Identifier, tvalue = ''foo''\<rparr>, \<lparr>ttype = Punctuator, tvalue = ''}''\<rparr>,
                \<lparr>ttype = Identifier, tvalue = ''from''\<rparr>, \<lparr>ttype = String, tvalue = ''\"./m.js\"''\<rparr>,
                \<lparr>ttype = Punctuator, tvalue = '';''\<rparr>]\<rparr>"

text \<open>
  \<open>rewritten re s t\<close>: \<open>t\<close> comes from \<open>s\<close> by replacing some texts that \<open>re\<close> matches where
  they stand, and by nothing else.
\<close>

inductive rewritten :: "regex \<Rightarrow> string \<Rightarrow> string \<Rightarrow> bool" for re where
  rw_end: "rewritten re [] []"
| rw_keep: "rewritten re s t \<Longrightarrow> rewritten re (c # s) (c # t)"
| rw_match: "regex_exec re (m @ s) = Some (m, caps, s) \<Longrightarrow> rewritten re s t \<Longrightarrow>
             rewritten re (m @ s) (r @ t)"

text \<open>
  A stand-in for the parser on the two texts that the runs below hand to it: the empty
  text parses to the empty program, and \<open>foo(;\<close> is a syntax error.
\<close>

definition parse_blank :: parser where
  "parse_blank ty src = (if src = [] then Some \<lparr>body = [], tokens = []\<rparr> else None)"

text \<open>
  A file that starts with the marker, followed by one assignment whose trailing comment
  has a semicolon in it.
\<close>

definition semicolon_comment :: string where
  "semicolon_comment = ''// Temporary globals'' @ [CHR 0x0A] @ ''window.a = 1; // foo; bar''"

text \<open>The paths of the directory entries that the first loop reads.\<close>

definition js_paths :: "string list \<Rightarrow> string list" where
  "js_paths files = map (path_join srcDir) (filter (\<lambda>fname. path_extname fname = ''.js'') files)"

text \<open>
  A directory with \<open>a.js\<close> (the marker and one assignment), \<open>c.js\<close> (a syntax error that
  mentions \<open>foo\<close>) and a file that is no script.
\<close>

definition corpus_files :: "string list" where
  "corpus_files = [''a.js'', ''c.js'', ''notes.txt'']"

definition corpus_disk :: disk where
  "corpus_disk =
     [''src/a.js'' \<mapsto> ''// Temporary globals'' @ [CHR 0x0A] @ ''window.foo = 1;'',
      ''src/c.js'' \<mapsto> ''foo(;'']"

section \<open>The matcher consumes a prefix of its input\<close>

lemma strip_prefix_Some: "strip_prefix p s = Some s' \<Longrightarrow> s = p @ s'"
  by (induction p s rule: strip_prefix.induct) (auto split: if_splits)

lemma star_greedy_sound:
  "star_greedy P s k = Some r \<Longrightarrow> \<exists>w s'. s = w @ s' \<and> list_all P w \<and> k s' = Some r"
proof (induction P s k rule: star_greedy.induct)
  case (1 P k)
  then show ?case by simp
next
  case (2 P c cs k)
  show ?case
  proof (cases "P c \<and> star_greedy P cs k \<noteq> None")
    case True
    with 2 obtain w s' where "cs = w @ s'" "list_all P w" "k s' = Some r"
      by (auto split: option.splits)
    then have "c # cs = (c # w) @ s' \<and> list_all P (c # w) \<and> k s' = Some r"
      using True by simp
    then show ?thesis by blast
  next
    case False
    with 2 have "k (c # cs) = Some r" by (auto split: if_splits option.splits)
    then have "c # cs = [] @ (c # cs) \<and> list_all P [] \<and> k (c # cs) = Some r" by simp
    then show ?thesis by blast
  qed
qed

lemma star_lazy_sound:
  "star_lazy P s k = Some r \<Longrightarrow> \<exists>w s'. s = w @ s' \<and> list_all P w \<and> k s' = Some r"
proof (induction P s k rule: star_lazy.induct)
  case (1 P k)
  then show ?case by simp
next
  case (2 P c cs k)
  show ?case
  proof (cases "k (c # cs)")
    case None
    with 2 obtain w s' where "cs = w @ s'" "list_all P w" "k s' = Some r" and "P c"
      by (auto split: if_splits)
    then have "c # cs = (c # w) @ s' \<and> list_all P (c # w) \<and> k s' = Some r"
      by simp
    then show ?thesis by blast
  next
    case (Some a)
    with 2 have "k (c # cs) = Some r" by simp
    then have "c # cs = [] @ (c # cs) \<and> list_all P [] \<and> k (c # cs) = Some r" by simp
    then show ?thesis by blast
  qed
qed

lemma matcher_sound:
  "matcher re s caps k = Some res \<Longrightarrow>
   \<exists>w s' caps'. s = w @ s' \<and> rmatch re w caps caps' \<and> k s' caps' = Some res"
proof (induction re arbitrary: s caps k res)
  case (Lit l)
  then show ?case
    by (auto split: option.splits dest!: strip_prefix_Some intro: rm_Lit)
next
  case (Star cc)
  then show ?case by (auto dest!: star_greedy_sound intro: rm_Star)
next
  case (LazyStar cc)
  then show ?case by (auto dest!: star_lazy_sound intro: rm_LazyStar)
next
  case (Opt re)
  show ?case
  proof (cases "matcher re s caps (\<lambda>s' caps'. if length s' = length s then None else k s' caps')")
    case None
    with Opt.prems have "k s caps = Some res" by simp
    then have "s = [] @ s \<and> rmatch (Opt re) [] caps caps \<and> k s caps = Some res"
      by (simp add: rm_Opt_none)
    then show ?thesis by blast
  next
    case (Some a)
    with Opt.prems have a: "a = res" by simp
    from Opt.IH[OF Some] obtain w s' caps' where
      w: "s = w @ s'" "rmatch re w caps caps'"
         "(if length s' = length s then None else k s' caps') = Some a" by blast
    then have "w \<noteq> []" "k s' caps' = Some res" using a by (auto split: if_splits)
    with w show ?thesis by (blast intro: rm_Opt_some)
  qed
next
  case (Group n re)
  from Group.prems have
    "matcher re s caps (\<lambda>s' caps'. k s' (caps'(n \<mapsto> take (length s - length s') s))) = Some res"
    by simp
  from Group.IH[OF this] obtain w s' caps' where
    w: "s = w @ s'" "rmatch re w caps caps'"
       "k s' (caps'(n \<mapsto> take (length s - length s') s)) = Some res" by blast
  then have "take (length s - length s') s = w" by simp
  with w show ?case by (metis rm_Group)
next
  case (Cat r1 r2)
  from Cat.prems have "matcher r1 s caps (\<lambda>s' caps'. matcher r2 s' caps' k) = Some res" by simp
  from Cat.IH(1)[OF this] obtain w1 s1 c1 where
    w1: "s = w1 @ s1" "rmatch r1 w1 caps c1" "matcher r2 s1 c1 k = Some res" by blast
  from Cat.IH(2)[OF w1(3)] obtain w2 s2 c2 where
    w2: "s1 = w2 @ s2" "rmatch r2 w2 c1 c2" "k s2 c2 = Some res" by blast
  have "s = (w1 @ w2) @ s2" using w1 w2 by simp
  then show ?case using w1 w2 by (blast intro: rm_Cat)
qed

lemma regex_exec_sound:
  assumes "regex_exec re s = Some (m, caps, rest)"
  shows "s = m @ rest \<and> rmatch re m (\<lambda>n. None) caps"
proof -
  from assms obtain w s' caps' where
    w: "s = w @ s'" "rmatch re w (\<lambda>n. None) caps'"
       "Some (take (length s - length s') s, caps', s') = Some (m, caps, rest)"
    unfolding regex_exec_def by (blast dest: matcher_sound)
  then show ?thesis by auto
qed

termination js_replace
proof (relation "measure (\<lambda>(re, f, s). length s)", goal_cases)
  case 1
  show ?case by simp
next
  case (2 re f s c cs)
  then show ?case by simp
next
  case (3 re f s x2 m y caps rest r c cs)
  then show ?case by simp
next
  case (4 re f s x2 m y caps rest r)
  then have "regex_exec re s = Some (m, caps, rest)" by simp
  then have "s = m @ rest" by (simp add: regex_exec_sound)
  with 4 show ?case by simp
qed

declare js_replace.simps [simp del]

section \<open>Properties of findDependencies\<close>

lemma scan_tokens_iff:
  "scan_tokens ident ts \<longleftrightarrow> (\<exists>t \<in> set ts. ttype t = Identifier \<and> tvalue t = ident)"
  by (induction ts) auto

lemma scan_specifiers_Inr:
  "scan_specifiers ident sps = Inr found \<Longrightarrow>
   found = (\<exists>sp \<in> set sps. imported sp = Some ident)"
  by (induction sps) (auto split: option.splits if_splits)

lemma scan_specifiers_error: "scan_specifiers ident sps = Inl e \<Longrightarrow> e = TypeError"
  by (induction sps) (auto split: option.splits if_splits)

lemma scan_specifiers_named:
  "\<forall>sp \<in> set sps. imported sp \<noteq> None \<Longrightarrow> \<exists>found. scan_specifiers ident sps = Inr found"
  by (induction sps) (auto split: option.splits)

lemma scan_body_Inr:
  "scan_body ident foundImport nodes = Inr found \<Longrightarrow>
   found = (foundImport \<or> (\<exists>sps sp. ImportDeclaration sps \<in> set nodes \<and> sp \<in> set sps
                                    \<and> imported sp = Some ident))"
proof (induction ident foundImport nodes rule: scan_body.induct)
  case (1 ident foundImport)
  then show ?case by simp
next
  case (2 ident foundImport sps nodes)
  from "2.prems" obtain f where f: "scan_specifiers ident sps = Inr f"
    and rest: "scan_body ident (foundImport \<or> f) nodes = Inr found"
    by (auto split: sum.splits)
  from "2.IH"[OF f rest] scan_specifiers_Inr[OF f] show ?case by auto
next
  case (3 ident foundImport ty nodes)
  then show ?case by auto
qed

lemma scan_body_error: "scan_body ident foundImport nodes = Inl e \<Longrightarrow> e = TypeError"
  by (induction ident foundImport nodes rule: scan_body.induct)
     (auto split: sum.splits dest: scan_specifiers_error)

lemma scan_body_named:
  "\<forall>n \<in> set nodes. case n of ImportDeclaration sps \<Rightarrow> (\<forall>sp \<in> set sps. imported sp \<noteq> None)
                              | OtherNode ty \<Rightarrow> True \<Longrightarrow>
   \<exists>found. scan_body ident foundImport nodes = Inr found"
proof (induction ident foundImport nodes rule: scan_body.induct)
  case (2 ident foundImport sps nodes)
  then have "\<forall>sp \<in> set sps. imported sp \<noteq> None" by simp
  from scan_specifiers_named[OF this] obtain f where f: "scan_specifiers ident sps = Inr f"
    by blast
  with 2 show ?case by simp
qed auto

lemma findDependencies_error:
  "findDependencies ident entries excl = Inl e \<Longrightarrow> e = TypeError"
  by (induction ident entries excl rule: findDependencies.induct)
     (auto split: sum.splits if_splits dest: scan_body_error)

lemma findDependencies_member:
  "findDependencies ident entries excl = Inr deps \<Longrightarrow> p \<in> set deps \<Longrightarrow>
   p \<notin> set excl \<and> (\<exists>tree. (p, tree) \<in> set entries
                      \<and> scan_body ident False (body tree) = Inr False
                      \<and> scan_tokens ident (tokens tree))"
proof (induction ident entries excl arbitrary: deps rule: findDependencies.induct)
  case (1 ident excludeFiles)
  then show ?case by simp
next
  case (2 ident filePath tree entries excludeFiles)
  then show ?case
    by (fastforce split: sum.splits if_splits)
qed

lemma findDependencies_total:
  "\<forall>(p, tree) \<in> set entries. p \<notin> set excl \<longrightarrow> named_imports_only tree \<Longrightarrow>
   \<exists>deps. findDependencies ident entries excl = Inr deps"
proof (induction ident entries excl rule: findDependencies.induct)
  case (1 ident excludeFiles)
  then show ?case by simp
next
  case (2 ident filePath tree entries excludeFiles)
  show ?case
  proof (cases "filePath \<in> set excludeFiles")
    case True
    with 2 show ?thesis by simp
  next
    case False
    with "2.prems" have "named_imports_only tree" by simp
    then obtain f where f: "scan_body ident False (body tree) = Inr f"
      unfolding named_imports_only_def using scan_body_named by blast
    from 2 False f have "\<exists>deps. findDependencies ident entries excludeFiles = Inr deps"
      by (cases f) auto
    with False f show ?thesis by auto
  qed
qed

lemma import_clause_first:
  "import_clause sps \<Longrightarrow> sp \<in> set sps \<Longrightarrow> imported sp = None \<Longrightarrow>
   scan_specifiers ident sps = Inl TypeError"
  by (induction sps rule: import_clause.induct) auto

lemma scan_body_fault:
  "ImportDeclaration sps \<in> set nodes \<Longrightarrow> scan_specifiers ident sps = Inl TypeError \<Longrightarrow>
   scan_body ident foundImport nodes = Inl TypeError"
  by (induction ident foundImport nodes rule: scan_body.induct)
     (auto split: sum.splits dest: scan_specifiers_error)

lemma findDependencies_fault:
  "(p, tree) \<in> set entries \<Longrightarrow> p \<notin> set excl \<Longrightarrow>
   scan_body ident False (body tree) = Inl TypeError \<Longrightarrow>
   findDependencies ident entries excl = Inl TypeError"
proof (induction entries)
  case Nil
  then show ?case by simp
next
  case (Cons entry entries)
  obtain q t where entry: "entry = (q, t)" by (cases entry)
  show ?case
  proof (cases "(p, tree) = (q, t)")
    case True
    with Cons.prems entry show ?thesis by simp
  next
    case False
    with Cons entry have IH: "findDependencies ident entries excl = Inl TypeError" by auto
    show ?thesis
    proof (cases "scan_body ident False (body t)")
      case (Inl e)
      then show ?thesis using entry IH by (auto dest: scan_body_error)
    next
      case (Inr f)
      then show ?thesis using entry IH by auto
    qed
  qed
qed


text \<open>
  C1, as stated, fails: the file \<open>import { bar as foo } from "./m.js"; foo();\<close> has the
  import binding \<open>foo\<close> (the bound local name, \<open>importedNames\<close> as the specification
  words it) and is not the excluded file, yet the import check does not find \<open>foo\<close>,
  the tokens are scanned and the file is reported.
\<close>

theorem import_binding_reported_counterexample:
  "''foo'' \<in> set (spec_importedNames prog_import_as_foo)
   \<and> ''src/b.js'' \<notin> set [''src/a.js'']
   \<and> scan_body ''foo'' False (body prog_import_as_foo) = Inr False
   \<and> findDependencies ''foo'' [(''src/b.js'', prog_import_as_foo)] [''src/a.js'']
       = Inr [''src/b.js'']"
  by (simp add: prog_import_as_foo_def)

text \<open>
  C1, amended. A file in which some top-level import declaration has a named specifier
  whose imported name (\<open>specifier.imported.name\<close>) is the identifier is left out of the
  report, and its token stream plays no part: the report is the same whatever tokens the
  file has, also when the identifier is among them.
\<close>

theorem import_exclusion:
  assumes "ImportDeclaration sps \<in> set (body tree)" and "sp \<in> set sps"
    and "imported sp = Some ident"
    and "findDependencies ident (pre @ (filePath, tree) # post) excl = Inr deps"
    and "filePath \<notin> fst ` set (pre @ post)"
  shows "filePath \<notin> set deps \<and>
         findDependencies ident (pre @ (filePath, tree\<lparr>tokens := ts\<rparr>) # post) excl = Inr deps"
proof
  show "filePath \<notin> set deps"
  proof
    assume "filePath \<in> set deps"
    from findDependencies_member[OF assms(4) this] obtain t where
      t: "(filePath, t) \<in> set (pre @ (filePath, tree) # post)"
         "scan_body ident False (body t) = Inr False" by blast
    with assms(5) have "t = tree" by force
    with t(2) scan_body_Inr[of ident False "body tree" False] assms(1-3) show False by blast
  qed
next
  have skip: "findDependencies ident ((filePath, tree\<lparr>tokens := ts\<rparr>) # post) excl =
              findDependencies ident ((filePath, tree) # post) excl" for ts
  proof (cases "scan_body ident False (body tree)")
    case (Inl e)
    then show ?thesis by simp
  next
    case (Inr f)
    from scan_body_Inr[OF Inr] assms(1-3) have "f" by blast
    with Inr have "scan_body ident False (body tree) = Inr True" by simp
    then show ?thesis by simp
  qed
  have "findDependencies ident (pre @ (filePath, tree\<lparr>tokens := ts\<rparr>) # post) excl =
        findDependencies ident (pre @ (filePath, tree) # post) excl"
  proof (induction pre)
    case Nil
    then show ?case using skip by simp
  next
    case (Cons a pre)
    obtain q t where a: "a = (q, t)" by (cases a)
    show ?case unfolding a append_Cons findDependencies.simps Cons.IH ..
  qed
  with assms(4) show
    "findDependencies ident (pre @ (filePath, tree\<lparr>tokens := ts\<rparr>) # post) excl = Inr deps"
    by simp
qed

theorem import_exclusion_witness:
  "findDependencies ''foo'' ([(''src/b.js'', prog_calls_foo)] @ (''src/c.js'', prog_imports_foo) # [])
     [''src/a.js''] = Inr [''src/b.js'']
   \<and> scan_tokens ''foo'' (tokens prog_imports_foo)
   \<and> ''src/c.js'' \<notin> set [''src/b.js'']
   \<and> findDependencies ''foo''
        ([(''src/b.js'', prog_calls_foo)] @ (''src/c.js'', prog_imports_foo\<lparr>tokens := []\<rparr>) # [])
        [''src/a.js''] = Inr [''src/b.js'']"
proof -
  have h1: "ImportDeclaration [ImportSpecifier ''foo'' ''foo''] \<in> set (body prog_imports_foo)"
    by (simp add: prog_imports_foo_def)
  have h2: "ImportSpecifier ''foo'' ''foo'' \<in> set [ImportSpecifier ''foo'' ''foo'']" by simp
  have h3: "imported (ImportSpecifier ''foo'' ''foo'') = Some ''foo''" by simp
  have h4: "findDependencies ''foo''
              ([(''src/b.js'', prog_calls_foo)] @ (''src/c.js'', prog_imports_foo) # [])
              [''src/a.js''] = Inr [''src/b.js'']"
    by (simp add: prog_imports_foo_def prog_calls_foo_def)
  have h5: "''src/c.js'' \<notin> fst ` set ([(''src/b.js'', prog_calls_foo)] @ [])" by simp
  have tok: "scan_tokens ''foo'' (tokens prog_imports_foo)" by (simp add: prog_imports_foo_def)
  from import_exclusion[OF h1 h2 h3 h4 h5, of "[]"] h4 tok show ?thesis by blast
qed

text \<open>
  C3. A file none of whose tokens is an Identifier token with the identifier as value
  (the identifier occurs at most inside strings, comments or template text, which are no
  Identifier tokens) is not in the report.
\<close>

theorem comment_string_immunity:
  assumes "findDependencies ident entries excl = Inr deps"
    and "\<forall>tree. (filePath, tree) \<in> set entries \<longrightarrow>
           (\<forall>t \<in> set (tokens tree). ttype t = Identifier \<longrightarrow> tvalue t \<noteq> ident)"
  shows "filePath \<notin> set deps"
proof
  assume "filePath \<in> set deps"
  from findDependencies_member[OF assms(1) this] obtain tree where
    "(filePath, tree) \<in> set entries" "scan_tokens ident (tokens tree)" by blast
  with assms(2) show False by (auto simp: scan_tokens_iff)
qed

theorem comment_string_immunity_witness:
  "findDependencies ''foo'' [(''src/b.js'', prog_string_foo), (''src/c.js'', prog_calls_foo)]
     [''src/a.js''] = Inr [''src/c.js'']
   \<and> ''src/b.js'' \<notin> set [''src/c.js'']"
proof -
  have h1: "findDependencies ''foo'' [(''src/b.js'', prog_string_foo), (''src/c.js'', prog_calls_foo)]
              [''src/a.js''] = Inr [''src/c.js'']"
    by (simp add: prog_string_foo_def prog_calls_foo_def)
  have h2: "\<forall>tree. (''src/b.js'', tree) \<in> set [(''src/b.js'', prog_string_foo), (''src/c.js'', prog_calls_foo)]
              \<longrightarrow> (\<forall>t \<in> set (tokens tree). ttype t = Identifier \<longrightarrow> tvalue t \<noteq> ''foo'')"
    by (simp add: prog_string_foo_def)
  from comment_string_immunity[OF h1 h2] h1 show ?thesis by blast
qed

text \<open>
  C4. The report never contains an excluded file, and it is empty when no other file has
  an Identifier token with the identifier as value.
\<close>

theorem self_exclusion:
  assumes "findDependencies ident entries excl = Inr deps"
  shows "(\<forall>filePath \<in> set excl. filePath \<notin> set deps) \<and>
         ((\<forall>(filePath, tree) \<in> set entries. filePath \<notin> set excl \<longrightarrow>
              (\<forall>t \<in> set (tokens tree). \<not> (ttype t = Identifier \<and> tvalue t = ident)))
          \<longrightarrow> deps = [])"
proof (intro conjI ballI impI)
  fix filePath assume "filePath \<in> set excl"
  then show "filePath \<notin> set deps" using findDependencies_member[OF assms] by blast
next
  assume other: "\<forall>(filePath, tree) \<in> set entries. filePath \<notin> set excl \<longrightarrow>
              (\<forall>t \<in> set (tokens tree). \<not> (ttype t = Identifier \<and> tvalue t = ident))"
  show "deps = []"
  proof (rule ccontr)
    assume "deps \<noteq> []"
    then obtain p where "p \<in> set deps" by (cases deps) auto
    from findDependencies_member[OF assms this] obtain tree where
      "p \<notin> set excl" "(p, tree) \<in> set entries" "scan_tokens ident (tokens tree)" by blast
    with other show False by (auto simp: scan_tokens_iff)
  qed
qed

theorem self_exclusion_witness:
  "findDependencies ''foo'' [(''src/a.js'', prog_calls_foo), (''src/b.js'', prog_string_foo)]
     [''src/a.js''] = Inr []
   \<and> scan_tokens ''foo'' (tokens prog_calls_foo)
   \<and> ''src/a.js'' \<notin> set ([] :: string list)"
proof -
  have h1: "findDependencies ''foo'' [(''src/a.js'', prog_calls_foo), (''src/b.js'', prog_string_foo)]
     [''src/a.js''] = Inr []"
    by (simp add: prog_string_foo_def prog_calls_foo_def)
  have tok: "scan_tokens ''foo'' (tokens prog_calls_foo)" by (simp add: prog_calls_foo_def)
  from self_exclusion[OF h1] have "''src/a.js'' \<notin> set ([] :: string list)" by simp
  with h1 tok show ?thesis by blast
qed

text \<open>
  C9, as stated, fails: for \<open>import { a as b }\<close> the import check does not find the local
  name \<open>b\<close>, which is in \<open>importedNames\<close> as the specification words it, and the file is
  reported for \<open>b\<close>; it finds the imported name \<open>a\<close>, which is not in that set.
\<close>

theorem import_check_uses_local_name_counterexample:
  "scan_body ''b'' False (body prog_import_renamed) = Inr False
   \<and> ''b'' \<in> set (spec_importedNames prog_import_renamed)
   \<and> scan_body ''a'' False (body prog_import_renamed) = Inr True
   \<and> ''a'' \<notin> set (spec_importedNames prog_import_renamed)
   \<and> findDependencies ''b'' [(''src/m.js'', prog_import_renamed)] [''src/a.js''] = Inr [''src/m.js'']"
  by (simp add: prog_import_renamed_def)

text \<open>
  C9, amended. When the import check returns, it has found the identifier exactly if
  some specifier of some top-level import declaration has it as its imported name
  (for \<open>import { a as b }\<close> the name \<open>a\<close>).
\<close>

theorem import_check_uses_imported_name:
  assumes "scan_body ident False (body tree) = Inr found"
  shows "found = (\<exists>sps sp. ImportDeclaration sps \<in> set (body tree) \<and> sp \<in> set sps
                     \<and> imported sp = Some ident)"
  using scan_body_Inr[OF assms] by simp

theorem import_check_uses_imported_name_witness:
  "scan_body ''a'' False (body prog_import_renamed) = Inr True
   \<and> (\<exists>sps sp. ImportDeclaration sps \<in> set (body prog_import_renamed) \<and> sp \<in> set sps
                     \<and> imported sp = Some ''a'')"
proof -
  have h: "scan_body ''a'' False (body prog_import_renamed) = Inr True"
    by (simp add: prog_import_renamed_def)
  from import_check_uses_imported_name[OF h] h show ?thesis by blast
qed

text \<open>
  C10. When every import specifier of every scanned (not excluded) file is a named one,
  the scan returns a report. When the trees are as a parser gives them and some scanned
  file has a default or namespace specifier, the scan ends in the TypeError.
\<close>

theorem scan_total_iff_named_imports:
  "((\<forall>(filePath, tree) \<in> set entries. filePath \<notin> set excl \<longrightarrow> named_imports_only tree)
      \<longrightarrow> (\<exists>deps. findDependencies ident entries excl = Inr deps))
   \<and> ((\<forall>(filePath, tree) \<in> set entries. import_clauses_only tree)
       \<and> \<not> (\<forall>(filePath, tree) \<in> set entries. filePath \<notin> set excl \<longrightarrow> named_imports_only tree)
      \<longrightarrow> findDependencies ident entries excl = Inl TypeError)"
proof (intro conjI impI)
  assume "\<forall>(filePath, tree) \<in> set entries. filePath \<notin> set excl \<longrightarrow> named_imports_only tree"
  then show "\<exists>deps. findDependencies ident entries excl = Inr deps"
    by (rule findDependencies_total)
next
  assume a: "(\<forall>(filePath, tree) \<in> set entries. import_clauses_only tree)
       \<and> \<not> (\<forall>(filePath, tree) \<in> set entries. filePath \<notin> set excl \<longrightarrow> named_imports_only tree)"
  then obtain p tree where pt: "(p, tree) \<in> set entries" "p \<notin> set excl"
    "\<not> named_imports_only tree" by auto
  then obtain n where n: "n \<in> set (body tree)"
    "\<not> (case n of ImportDeclaration sps \<Rightarrow> (\<forall>sp \<in> set sps. imported sp \<noteq> None) | OtherNode ty \<Rightarrow> True)"
    unfolding named_imports_only_def by blast
  from n(2) obtain sps sp where sps: "n = ImportDeclaration sps" "sp \<in> set sps" "imported sp = None"
    by (cases n) auto
  from a pt(1) have "import_clauses_only tree" by auto
  with n(1) sps(1) have "import_clause sps" unfolding import_clauses_only_def by force
  from import_clause_first[OF this sps(2,3)] have "scan_specifiers ident sps = Inl TypeError" .
  with n(1) sps(1) have "scan_body ident False (body tree) = Inl TypeError"
    by (auto intro: scan_body_fault)
  with pt(1,2) show "findDependencies ident entries excl = Inl TypeError"
    by (rule findDependencies_fault)
qed

theorem scan_total_iff_named_imports_witness:
  "(\<exists>deps. findDependencies ''foo'' [(''src/a.js'', prog_import_default), (''src/b.js'', prog_imports_foo)]
                 [''src/a.js''] = Inr deps)
   \<and> \<not> named_imports_only prog_import_default
   \<and> findDependencies ''foo'' [(''src/b.js'', prog_import_default)] [''src/a.js''] = Inl TypeError"
proof -
  have h1: "\<forall>(filePath, tree) \<in> set [(''src/a.js'', prog_import_default), (''src/b.js'', prog_imports_foo)].
       filePath \<notin> set [''src/a.js''] \<longrightarrow> named_imports_only tree"
    by (simp add: named_imports_only_def prog_imports_foo_def)
  have h2: "\<forall>(filePath, tree) \<in> set [(''src/b.js'', prog_import_default)]. import_clauses_only tree"
    by (simp add: import_clauses_only_def prog_import_default_def)
  have h3: "\<not> (\<forall>(filePath, tree) \<in> set [(''src/b.js'', prog_import_default)].
            filePath \<notin> set [''src/a.js''] \<longrightarrow> named_imports_only tree)"
    by (simp add: named_imports_only_def prog_import_default_def)
  from scan_total_iff_named_imports[of "[(''src/a.js'', prog_import_default), (''src/b.js'', prog_imports_foo)]"
        "[''src/a.js'']" "''foo''"] h1
  have r1: "\<exists>deps. findDependencies ''foo'' [(''src/a.js'', prog_import_default), (''src/b.js'', prog_imports_foo)]
                 [''src/a.js''] = Inr deps" by blast
  from scan_total_iff_named_imports[of "[(''src/b.js'', prog_import_default)]" "[''src/a.js'']" "''foo''"]
    h2 h3
  have r2: "findDependencies ''foo'' [(''src/b.js'', prog_import_default)] [''src/a.js''] = Inl TypeError"
    by blast
  have h4: "\<not> named_imports_only prog_import_default"
    by (simp add: named_imports_only_def prog_import_default_def)
  from r1 r2 h4 show ?thesis by blast
qed


section \<open>Properties of the split\<close>

lemma indexOf_Some:
  "indexOf s m = Some i \<Longrightarrow>
   i \<le> length s \<and> (\<exists>b. drop i s = m @ b) \<and> (\<forall>a' b'. s = a' @ m @ b' \<longrightarrow> i \<le> length a')"
proof (induction s arbitrary: i)
  case Nil
  then show ?case by (auto split: if_splits)
next
  case (Cons c cs)
  show ?case
  proof (cases "prefix m (c # cs)")
    case True
    with Cons.prems have "i = 0" by simp
    with True show ?thesis by (auto simp: prefix_def)
  next
    case False
    with Cons.prems obtain j where j: "indexOf cs m = Some j" "i = Suc j"
      by (auto split: option.splits)
    from Cons.IH[OF j(1)] have IH: "j \<le> length cs" "\<exists>b. drop j cs = m @ b"
      "\<forall>a' b'. cs = a' @ m @ b' \<longrightarrow> j \<le> length a'" by auto
    have "i \<le> length a'" if "c # cs = a' @ m @ b'" for a' b'
    proof (cases a')
      case Nil
      with that False show ?thesis by (auto simp: prefix_def)
    next
      case (Cons x xs)
      with that have "cs = xs @ m @ b'" by simp
      with IH(3) have "j \<le> length xs" by blast
      with Cons j(2) show ?thesis by simp
    qed
    with IH j(2) show ?thesis by simp
  qed
qed

lemma indexOf_None: "indexOf s m = None \<Longrightarrow> s \<noteq> a @ m @ b"
proof (induction s arbitrary: a)
  case Nil
  then show ?case by (auto split: if_splits)
next
  case (Cons c cs)
  then have np: "\<not> prefix m (c # cs)" and n: "indexOf cs m = None"
    by (auto split: if_splits option.splits)
  show ?case
  proof (cases a)
    case Nil
    with np show ?thesis by (auto simp: prefix_def)
  next
    case (Cons x xs)
    with Cons.IH[OF n, of xs] show ?thesis by auto
  qed
qed

text \<open>
  C6. When the marker occurs in the content, the upper content is the text before its
  first occurrence and the lower content is the text from there on, starting with the
  marker; together they are the content. When it does not occur, the upper content is
  the whole content and the lower content is empty.
\<close>

theorem split_at_first_marker:
  "((\<exists>a b. content = a @ marker @ b) \<longrightarrow>
      (\<exists>a b. split_content content = (a, marker @ b) \<and> content = a @ marker @ b
             \<and> (\<forall>a' b'. content = a' @ marker @ b' \<longrightarrow> length a \<le> length a')))
   \<and> (\<not> (\<exists>a b. content = a @ marker @ b) \<longrightarrow> split_content content = (content, []))"
proof (cases "indexOf content marker")
  case None
  then have "\<not> (\<exists>a b. content = a @ marker @ b)" using indexOf_None by blast
  with None show ?thesis by (simp add: split_content_def)
next
  case (Some i)
  from indexOf_Some[OF Some] obtain b where
    i: "i \<le> length content" "drop i content = marker @ b"
       "\<forall>a' b'. content = a' @ marker @ b' \<longrightarrow> i \<le> length a'" by blast
  have c: "content = take i content @ marker @ b" using i(2) by (metis append_take_drop_id)
  have "split_content content = (take i content, marker @ b)"
    using Some i(2) by (simp add: split_content_def)
  moreover have "\<forall>a' b'. content = a' @ marker @ b' \<longrightarrow> length (take i content) \<le> length a'"
    using i by simp
  ultimately show ?thesis using c by blast
qed

theorem split_at_first_marker_witness:
  "split_content (''f();'' @ marker @ ''window.f = f;'' @ marker)
     = (''f();'', marker @ ''window.f = f;'' @ marker)
   \<and> split_content ''f();'' = (''f();'', [])"
proof -
  have h: "\<exists>a b. ''f();'' @ marker @ ''window.f = f;'' @ marker = a @ marker @ b" by blast
  have e1: "split_content (''f();'' @ marker @ ''window.f = f;'' @ marker)
              = (''f();'', marker @ ''window.f = f;'' @ marker)"
    by (simp add: split_content_def marker_def)
  have e2: "split_content ''f();'' = (''f();'', [])"
    by (simp add: split_content_def marker_def)
  from split_at_first_marker[of "''f();'' @ marker @ ''window.f = f;'' @ marker"] h e1 e2
  show ?thesis by blast
qed

section \<open>Properties of the rewrite\<close>

inductive_simps rmatch_Lit: "rmatch (Lit l) w c c'"
inductive_simps rmatch_Star: "rmatch (Star cc) w c c'"
inductive_simps rmatch_LazyStar: "rmatch (LazyStar cc) w c c'"
inductive_simps rmatch_Opt: "rmatch (Opt r) w c c'"
inductive_simps rmatch_Group: "rmatch (Group n r) w c c'"
inductive_simps rmatch_Cat: "rmatch (Cat r1 r2) w c c'"

lemmas rmatch_simps = rmatch_Lit rmatch_Star rmatch_LazyStar rmatch_Opt rmatch_Group rmatch_Cat

lemma lead_shape:
  "rmatch (Opt (Cat (Lit l1) (Star W))) lead c c1 \<Longrightarrow>
   c1 = c \<and> (lead = [] \<or> (\<exists>ws. lead = l1 @ ws \<and> list_all (in_class W) ws))"
  unfolding rmatch_simps by blast

lemma assign_shape:
  "rmatch (Group 1 (Cat (Lit l2) (Cat (Group 2 (LazyStar A)) (Cat (Lit l3) (Cat (Star A) (Lit l4))))))
     a c c2 \<Longrightarrow>
   \<exists>ident expr. a = l2 @ ident @ l3 @ expr @ l4 \<and> list_all (in_class A) ident
      \<and> list_all (in_class A) expr \<and> c2 = c(2 \<mapsto> ident, 1 \<mapsto> a)"
  unfolding rmatch_simps by (elim exE conjE) (simp, blast)

lemma trail_shape:
  "rmatch (Opt (Group 3 (Cat (Star W) (Cat (Lit l1) (Star A))))) trail c2 caps \<Longrightarrow>
   (trail = [] \<and> caps = c2)
     \<or> (\<exists>ws cm. trail = ws @ l1 @ cm \<and> caps = c2(3 \<mapsto> trail)
           \<and> list_all (in_class W) ws \<and> list_all (in_class A) cm)"
  unfolding rmatch_simps by (elim disjE exE conjE) (simp, blast, simp)

lemma rmatch_Cat_split:
  "rmatch (Cat r1 r2) w c c' \<Longrightarrow>
   \<exists>w1 w2 c1. w = w1 @ w2 \<and> rmatch r1 w1 c c1 \<and> rmatch r2 w2 c1 c'"
  unfolding rmatch_Cat by blast

lemma assignment_re_shape:
  assumes "rmatch assignment_re m (\<lambda>n. None) caps"
  shows "\<exists>lead ident expr trail.
           m = lead @ (''window.'' @ ident @ '' = '' @ expr @ '';'') @ trail
         \<and> caps 1 = Some (''window.'' @ ident @ '' = '' @ expr @ '';'')
         \<and> caps 2 = Some ident
         \<and> list_all (in_class AnyChar) ident \<and> list_all (in_class AnyChar) expr
         \<and> (lead = [] \<or> (\<exists>ws. lead = ''//'' @ ws \<and> list_all (in_class WhiteSpace) ws))
         \<and> (trail = [] \<and> caps 3 = None
              \<or> (\<exists>ws cm. trail = ws @ ''//'' @ cm \<and> caps 3 = Some trail
                    \<and> list_all (in_class WhiteSpace) ws \<and> list_all (in_class AnyChar) cm))"
proof -
  from rmatch_Cat_split[OF assms[unfolded assignment_re_def]] obtain lead rest1 c1 where
    m1: "m = lead @ rest1"
    and lead: "rmatch (Opt (Cat (Lit ''//'') (Star WhiteSpace))) lead (\<lambda>n. None) c1"
    and rest1: "rmatch (Cat (Group 1 (Cat (Lit ''window.'') (Cat (Group 2 (LazyStar AnyChar))
               (Cat (Lit '' = '') (Cat (Star AnyChar) (Lit '';''))))))
               (Opt (Group 3 (Cat (Star WhiteSpace) (Cat (Lit ''//'') (Star AnyChar))))))
              rest1 c1 caps"
    by blast
  from rmatch_Cat_split[OF rest1] obtain a trail c2 where
    m2: "rest1 = a @ trail"
    and a: "rmatch (Group 1 (Cat (Lit ''window.'') (Cat (Group 2 (LazyStar AnyChar))
               (Cat (Lit '' = '') (Cat (Star AnyChar) (Lit '';'')))))) a c1 c2"
    and trail: "rmatch (Opt (Group 3 (Cat (Star WhiteSpace) (Cat (Lit ''//'') (Star AnyChar)))))
                  trail c2 caps"
    by blast
  from lead_shape[OF lead] have c1: "c1 = (\<lambda>n. None)"
    and leadshape: "lead = [] \<or> (\<exists>ws. lead = ''//'' @ ws \<and> list_all (in_class WhiteSpace) ws)"
    by blast+
  from assign_shape[OF a] obtain ident expr where
    ashape: "a = ''window.'' @ ident @ '' = '' @ expr @ '';''"
    and cls: "list_all (in_class AnyChar) ident" "list_all (in_class AnyChar) expr"
    and c2: "c2 = c1(2 \<mapsto> ident, 1 \<mapsto> a)"
    by blast
  from trail_shape[OF trail] have
    t: "(trail = [] \<and> caps = c2)
     \<or> (\<exists>ws cm. trail = ws @ ''//'' @ cm \<and> caps = c2(3 \<mapsto> trail)
           \<and> list_all (in_class WhiteSpace) ws \<and> list_all (in_class AnyChar) cm)" .
  have c2v: "c2 1 = Some a" "c2 2 = Some ident" "c2 3 = None"
    unfolding c2 c1 by simp_all
  have caps1: "caps 1 = Some (''window.'' @ ident @ '' = '' @ expr @ '';'')"
  proof -
    from t have "caps 1 = c2 1" by (elim disjE exE conjE) simp_all
    with c2v(1) show ?thesis unfolding ashape by simp
  qed
  have caps2: "caps 2 = Some ident"
  proof -
    from t have "caps 2 = c2 2" by (elim disjE exE conjE) simp_all
    with c2v(2) show ?thesis by simp
  qed
  from t have trailshape: "trail = [] \<and> caps 3 = None
       \<or> (\<exists>ws cm. trail = ws @ ''//'' @ cm \<and> caps 3 = Some trail
           \<and> list_all (in_class WhiteSpace) ws \<and> list_all (in_class AnyChar) cm)"
  proof (elim disjE exE conjE)
    assume "trail = []" "caps = c2"
    with c2v(3) have "trail = [] \<and> caps 3 = None" by simp
    then show ?thesis ..
  next
    fix ws cm
    assume h: "trail = ws @ ''//'' @ cm" "caps = c2(3 \<mapsto> trail)"
      "list_all (in_class WhiteSpace) ws" "list_all (in_class AnyChar) cm"
    from h(2) have "caps 3 = Some trail" by simp
    with h(1,3,4) have "\<exists>ws cm. trail = ws @ ''//'' @ cm \<and> caps 3 = Some trail
           \<and> list_all (in_class WhiteSpace) ws \<and> list_all (in_class AnyChar) cm" by blast
    then show ?thesis ..
  qed
  have m: "m = lead @ (''window.'' @ ident @ '' = '' @ expr @ '';'') @ trail"
    unfolding m1 m2 ashape ..
  show ?thesis
    apply (intro exI conjI)
          apply (rule m)
         apply (rule caps1)
        apply (rule caps2)
       apply (rule cls(1))
      apply (rule cls(2))
     apply (rule leadshape)
    apply (rule trailshape)
    done
qed


lemma js_replace_match:
  assumes "regex_exec re s = Some (m, caps, rest)" and "m \<noteq> []"
  shows "js_replace re f s =
           (case f m caps of
              Inl e \<Rightarrow> Inl e
            | Inr r \<Rightarrow> (case js_replace re f rest of Inl e \<Rightarrow> Inl e | Inr t \<Rightarrow> Inr (r @ t)))"
  using assms by (subst js_replace.simps) (simp split: sum.splits)

lemma js_replace_empty_match:
  assumes "regex_exec re s = Some ([], caps, rest)"
  shows "js_replace re f s =
           (case f [] caps of
              Inl e \<Rightarrow> Inl e
            | Inr r \<Rightarrow>
                (case s of
                   [] \<Rightarrow> Inr r
                 | c # cs \<Rightarrow>
                     (case js_replace re f cs of Inl e \<Rightarrow> Inl e | Inr t \<Rightarrow> Inr (r @ c # t))))"
  using assms by (subst js_replace.simps) (simp split: sum.splits)

lemma js_replace_no_match:
  assumes "regex_exec re s = None"
  shows "js_replace re f s =
           (case s of
              [] \<Rightarrow> Inr []
            | c # cs \<Rightarrow> (case js_replace re f cs of Inl e \<Rightarrow> Inl e | Inr t \<Rightarrow> Inr (c # t)))"
  using assms by (subst js_replace.simps) simp

lemma js_replace_rewritten: "js_replace re f s = Inr t \<Longrightarrow> rewritten re s t"
proof (induction s arbitrary: t rule: length_induct)
  case (1 s)
  show ?case
  proof (cases "regex_exec re s")
    case None
    show ?thesis
    proof (cases s)
      case Nil
      with None "1.prems" show ?thesis by (simp add: js_replace_no_match rw_end)
    next
      case (Cons c cs)
      with None "1.prems" obtain t' where t': "js_replace re f cs = Inr t'" "t = c # t'"
        by (auto simp: js_replace_no_match split: sum.splits)
      from "1.IH" Cons t'(1) have "rewritten re cs t'" by simp
      with Cons t'(2) show ?thesis by (simp add: rw_keep)
    qed
  next
    case (Some x)
    obtain m caps rest where x: "x = (m, caps, rest)" by (cases x)
    with Some have ex: "regex_exec re s = Some (m, caps, rest)" by simp
    then have split: "s = m @ rest" by (simp add: regex_exec_sound)
    show ?thesis
    proof (cases "m = []")
      case False
      with "1.prems" ex obtain r t' where
        t': "f m caps = Inr r" "js_replace re f rest = Inr t'" "t = r @ t'"
        by (auto simp: js_replace_match split: sum.splits)
      from False split have "length rest < length s" by simp
      with "1.IH" t'(2) have "rewritten re rest t'" by blast
      with ex split t'(3) show ?thesis by (auto intro: rw_match)
    next
      case True
      show ?thesis
      proof (cases s)
        case Nil
        with True "1.prems" ex obtain r where "f [] caps = Inr r" "t = r @ []"
          by (auto simp: js_replace_empty_match split: sum.splits)
        moreover have "regex_exec re ([] @ []) = Some ([], caps, [])"
          using ex True split Nil by simp
        ultimately show ?thesis using Nil rw_match[of re "[]" "[]" caps "[]" r, OF _ rw_end]
          by simp
      next
        case (Cons c cs)
        with True "1.prems" ex obtain r t' where
          t': "f [] caps = Inr r" "js_replace re f cs = Inr t'" "t = r @ c # t'"
          by (auto simp: js_replace_empty_match split: sum.splits)
        from "1.IH" Cons t'(2) have "rewritten re cs t'" by simp
        then have "rewritten re (c # cs) (c # t')" by (rule rw_keep)
        moreover have "regex_exec re ([] @ c # cs) = Some ([], caps, c # cs)"
          using ex True split Cons by simp
        ultimately have "rewritten re ([] @ c # cs) (r @ c # t')" by (rule rw_match[rotated])
        with Cons t'(3) show ?thesis by simp
      qed
    qed
  qed
qed

lemma js_replace_total:
  assumes f: "\<And>m caps. \<exists>r. f m caps = Inr r"
  shows "\<exists>t. js_replace re f s = Inr t"
proof (induction s rule: length_induct)
  case (1 s)
  show ?case
  proof (cases "regex_exec re s")
    case None
    show ?thesis
    proof (cases s)
      case Nil
      with None show ?thesis by (simp add: js_replace_no_match)
    next
      case (Cons c cs)
      with "1.IH" obtain t' where "js_replace re f cs = Inr t'" by force
      with None Cons show ?thesis by (simp add: js_replace_no_match)
    qed
  next
    case (Some x)
    obtain m caps rest where x: "x = (m, caps, rest)" by (cases x)
    with Some have ex: "regex_exec re s = Some (m, caps, rest)" by simp
    then have split: "s = m @ rest" by (simp add: regex_exec_sound)
    from f obtain r where r: "f m caps = Inr r" by blast
    show ?thesis
    proof (cases "m = []")
      case False
      with split have "length rest < length s" by simp
      with "1.IH" obtain t' where "js_replace re f rest = Inr t'" by blast
      with ex False r show ?thesis by (simp add: js_replace_match)
    next
      case True
      show ?thesis
      proof (cases s)
        case Nil
        with ex True r show ?thesis by (simp add: js_replace_empty_match)
      next
        case (Cons c cs)
        with "1.IH" obtain t' where "js_replace re f cs = Inr t'" by force
        with ex True r Cons show ?thesis by (simp add: js_replace_empty_match)
      qed
    qed
  qed
qed


text \<open>
  What \<open>replace\<close> does at a match of the pattern: the match is an optional \<open>//\<close> with
  white space, the first group \<open>window.<identifier> = <expression>;\<close> and an optional
  third group, white space and a \<open>//\<close> comment; in its place comes the first group
  followed by \<open> // may be used by \<close> and the formatted paths of the report joined by
  \<open>, \<close> when the report is not empty, and \<open>// \<close>, the first group and \<open> // unused\<close> when
  it is empty.
\<close>

lemma assignment_match_rewritten:
  assumes "regex_exec assignment_re s = Some (m, caps, rest)"
    and "findDependencies (capture caps 2) trees [filePath] = Inr deps"
  shows "\<exists>lead ident expr trail.
           s = lead @ (''window.'' @ ident @ '' = '' @ expr @ '';'') @ trail @ rest
         \<and> m = lead @ (''window.'' @ ident @ '' = '' @ expr @ '';'') @ trail
         \<and> capture caps 2 = ident
         \<and> (lead = [] \<or> (\<exists>ws. lead = ''//'' @ ws \<and> list_all (in_class WhiteSpace) ws))
         \<and> (trail = []
              \<or> (\<exists>ws cm. trail = ws @ ''//'' @ cm \<and> list_all (in_class WhiteSpace) ws
                    \<and> list_all (in_class AnyChar) cm))
         \<and> js_replace assignment_re (annotate trees filePath) s =
             (case js_replace assignment_re (annotate trees filePath) rest of
                Inl e \<Rightarrow> Inl e
              | Inr t \<Rightarrow>
                  Inr ((if deps \<noteq> []
                        then (''window.'' @ ident @ '' = '' @ expr @ '';'')
                             @ '' // may be used by '' @ join '', '' (map formatPath deps)
                        else ''// '' @ (''window.'' @ ident @ '' = '' @ expr @ '';'')
                             @ '' // unused'') @ t))"
proof -
  from regex_exec_sound[OF assms(1)] have s: "s = m @ rest"
    and rm: "rmatch assignment_re m (\<lambda>n. None) caps" by blast+
  from assignment_re_shape[OF rm] obtain lead ident expr trail where
    m: "m = lead @ (''window.'' @ ident @ '' = '' @ expr @ '';'') @ trail"
    and c1: "caps 1 = Some (''window.'' @ ident @ '' = '' @ expr @ '';'')"
    and c2: "caps 2 = Some ident"
    and lead: "lead = [] \<or> (\<exists>ws. lead = ''//'' @ ws \<and> list_all (in_class WhiteSpace) ws)"
    and trail: "trail = [] \<and> caps 3 = None
              \<or> (\<exists>ws cm. trail = ws @ ''//'' @ cm \<and> caps 3 = Some trail
                    \<and> list_all (in_class WhiteSpace) ws \<and> list_all (in_class AnyChar) cm)"
    by blast
  define a where "a = ''window.'' @ ident @ '' = '' @ expr @ '';''"
  have cap1: "capture caps 1 = a" using c1 by (simp add: capture_def a_def)
  have cap2: "capture caps 2 = ident" using c2 by (simp add: capture_def)
  have ne: "m \<noteq> []" unfolding m by simp
  have ann: "annotate trees filePath m caps =
        Inr (if deps \<noteq> [] then a @ '' // may be used by '' @ join '', '' (map formatPath deps)
             else ''// '' @ a @ '' // unused'')"
    using assms(2) unfolding annotate_def cap1 by (simp add: Let_def)
  have rep: "js_replace assignment_re (annotate trees filePath) s =
             (case js_replace assignment_re (annotate trees filePath) rest of
                Inl e \<Rightarrow> Inl e
              | Inr t \<Rightarrow>
                  Inr ((if deps \<noteq> [] then a @ '' // may be used by '' @ join '', '' (map formatPath deps)
                        else ''// '' @ a @ '' // unused'') @ t))"
    unfolding js_replace_match[OF assms(1) ne] ann by simp
  have s': "s = lead @ a @ trail @ rest" unfolding s m a_def by simp
  have trail': "trail = []
              \<or> (\<exists>ws cm. trail = ws @ ''//'' @ cm \<and> list_all (in_class WhiteSpace) ws
                    \<and> list_all (in_class AnyChar) cm)"
    using trail by blast
  have "s = lead @ a @ trail @ rest \<and> m = lead @ a @ trail \<and> capture caps 2 = ident
      \<and> (lead = [] \<or> (\<exists>ws. lead = ''//'' @ ws \<and> list_all (in_class WhiteSpace) ws))
      \<and> (trail = []
              \<or> (\<exists>ws cm. trail = ws @ ''//'' @ cm \<and> list_all (in_class WhiteSpace) ws
                    \<and> list_all (in_class AnyChar) cm))
      \<and> js_replace assignment_re (annotate trees filePath) s =
             (case js_replace assignment_re (annotate trees filePath) rest of
                Inl e \<Rightarrow> Inl e
              | Inr t \<Rightarrow>
                  Inr ((if deps \<noteq> [] then a @ '' // may be used by '' @ join '', '' (map formatPath deps)
                        else ''// '' @ a @ '' // unused'') @ t))"
    using s' m[folded a_def] cap2 lead trail' rep by (intro conjI)
  then show ?thesis unfolding a_def by (intro exI)
qed

lemma assignment_match_rewritten_example:
  "js_replace assignment_re
     (annotate [(''src/a.js'', prog_calls_foo), (''src/b.js'', prog_calls_foo)] ''src/a.js'')
     ''// window.foo = foo; // old note'' = Inr ''window.foo = foo; // may be used by b.js''
   \<and> js_replace assignment_re
     (annotate [(''src/a.js'', prog_calls_foo), (''src/b.js'', prog_string_foo)] ''src/a.js'')
     ''window.foo = foo; // may be used by b.js'' = Inr ''// window.foo = foo; // unused''
   \<and> (\<exists>lead ident expr trail.
         ''// window.foo = foo; // old note''
           = lead @ (''window.'' @ ident @ '' = '' @ expr @ '';'') @ trail @ [])"
proof -
  have "case regex_exec assignment_re ''// window.foo = foo; // old note'' of
               None \<Rightarrow> False
             | Some (m, caps, rest) \<Rightarrow> capture caps 2 = ''foo'' \<and> rest = []"
    by code_simp
  then obtain m caps where
    h1: "regex_exec assignment_re ''// window.foo = foo; // old note'' = Some (m, caps, [])"
    and c: "capture caps 2 = ''foo''"
    by (auto split: option.splits)
  have "findDependencies ''foo'' [(''src/a.js'', prog_calls_foo), (''src/b.js'', prog_calls_foo)]
          [''src/a.js''] = Inr [''src/b.js'']" by code_simp
  with c have h2: "findDependencies (capture caps 2)
          [(''src/a.js'', prog_calls_foo), (''src/b.js'', prog_calls_foo)]
          [''src/a.js''] = Inr [''src/b.js'']" by simp
  have r1: "js_replace assignment_re
     (annotate [(''src/a.js'', prog_calls_foo), (''src/b.js'', prog_calls_foo)] ''src/a.js'')
     ''// window.foo = foo; // old note'' = Inr ''window.foo = foo; // may be used by b.js''"
    by code_simp
  have r2: "js_replace assignment_re
     (annotate [(''src/a.js'', prog_calls_foo), (''src/b.js'', prog_string_foo)] ''src/a.js'')
     ''window.foo = foo; // may be used by b.js'' = Inr ''// window.foo = foo; // unused''"
    by code_simp
  from assignment_match_rewritten[OF h1 h2] r1 r2 show ?thesis by blast
qed


text \<open>
  C7. On a line whose trailing comment has no semicolon the old leading marker and the old
  trailing comment are discarded, as the claim says: \<open>// window.a = 1; // old note\<close>
  becomes \<open>// window.a = 1; // unused\<close>. On \<open>window.a = 1; // foo; bar\<close> they are not:
  the greedy \<open>.*;\<close> runs to the last semicolon of the line, the first group takes
  \<open>window.a = 1; // foo;\<close>, the third group takes nothing, and the rewritten line
  \<open>// window.a = 1; // foo; // unused bar\<close> keeps the old comment, cut in two, where the
  claim has \<open>// window.a = 1; // unused\<close>.
\<close>

theorem trailing_comment_with_semicolon_kept:
  "js_replace assignment_re (annotate [] ''src/a.js'') ''// window.a = 1; // old note''
     = Inr ''// window.a = 1; // unused''
   \<and> (case regex_exec assignment_re ''window.a = 1; // foo; bar'' of
        None \<Rightarrow> None
      | Some (m, caps, rest) \<Rightarrow> Some (m, capture caps 1, caps 3, rest))
       = Some (''window.a = 1; // foo;'', ''window.a = 1; // foo;'', None, '' bar'')
   \<and> js_replace assignment_re (annotate [] ''src/a.js'') ''window.a = 1; // foo; bar''
       = Inr ''// window.a = 1; // foo; // unused bar''
   \<and> js_replace assignment_re (annotate [] ''src/a.js'') ''window.a = 1; // foo; bar''
       \<noteq> Inr ''// window.a = 1; // unused''"
  by code_simp

text \<open>
  C2. The run is not idempotent on every corpus. The directory holds one file,
  \<open>a.js\<close>, with the content \<^const>\<open>semicolon_comment\<close>. The first run writes
  \<open>// window.a = 1; // foo; // unused bar\<close> as its second line, the second run, on what the
  first has written, writes \<open>// window.a = 1; // foo; // unused\<close>.
\<close>

theorem second_run_changes_file:
  "(case processFiles parse_blank (Inr [''a.js'']) [''src/a.js'' \<mapsto> semicolon_comment] of
      (d2, e2) \<Rightarrow>
        (case processFiles parse_blank (Inr [''a.js'']) d2 of
           (d3, e3) \<Rightarrow> (e2, d2 ''src/a.js'', e3, d3 ''src/a.js'')))
   = (None, Some (''// Temporary globals'' @ [CHR 0x0A] @ ''// window.a = 1; // foo; // unused bar''),
      None, Some (''// Temporary globals'' @ [CHR 0x0A] @ ''// window.a = 1; // foo; // unused''))"
  by code_simp

section \<open>Properties of the two loops\<close>

lemma split_content_append: "split_content content = (upper, lower) \<Longrightarrow> content = upper @ lower"
  by (auto simp: split_content_def split: option.splits)

lemma set_update_cases:
  "(q, v') \<in> set (AList.update k v al) \<Longrightarrow> (q, v') \<in> set al \<or> (q, v') = (k, v)"
  by (induction al) (auto split: if_splits)

lemma keys_update: "fst ` set (AList.update k v al) = insert k (fst ` set al)"
  by (simp add: dom_update)

lemma load_file_other: "path_extname fname \<noteq> ''.js'' \<Longrightarrow> load_file parse d st fname = Inr st"
  by (simp add: load_file_def)

lemma load_file_unreadable:
  "path_extname fname = ''.js'' \<Longrightarrow> d (path_join srcDir fname) = None \<Longrightarrow>
   load_file parse d st fname = Inl ReadError"
  by (simp add: load_file_def readFile_def)

lemma load_file_js:
  assumes "path_extname fname = ''.js''" and "d (path_join srcDir fname) = Some content"
    and "split_content content = (upper, lower)"
  shows "load_file parse d st fname =
     Inr \<lparr>fileUpperContent = AList.update (path_join srcDir fname) upper (fileUpperContent st),
          fileUpperContentTree =
            (case parse (sourceType upper) upper of
               None \<Rightarrow> fileUpperContentTree st
             | Some tree \<Rightarrow> AList.update (path_join srcDir fname) tree (fileUpperContentTree st)),
          fileLowerContent = AList.update (path_join srcDir fname) lower (fileLowerContent st)\<rparr>"
  using assms by (simp add: load_file_def readFile_def Let_def split: option.splits)

lemma load_file_fields:
  assumes "load_file parse d st fname = Inr st'"
  shows "(path_extname fname \<noteq> ''.js'' \<and> st' = st)
       \<or> (path_extname fname = ''.js''
          \<and> (\<exists>content upper lower.
                d (path_join srcDir fname) = Some content
              \<and> split_content content = (upper, lower)
              \<and> fileUpperContent st' = AList.update (path_join srcDir fname) upper (fileUpperContent st)
              \<and> fileLowerContent st' = AList.update (path_join srcDir fname) lower (fileLowerContent st)
              \<and> fileUpperContentTree st' =
                  (case parse (sourceType upper) upper of
                     None \<Rightarrow> fileUpperContentTree st
                   | Some tree \<Rightarrow> AList.update (path_join srcDir fname) tree (fileUpperContentTree st))))"
proof (cases "path_extname fname = ''.js''")
  case False
  with assms show ?thesis by (simp add: load_file_other)
next
  case True
  show ?thesis
  proof (cases "d (path_join srcDir fname)")
    case None
    with True assms show ?thesis by (simp add: load_file_unreadable)
  next
    case (Some content)
    obtain upper lower where sp: "split_content content = (upper, lower)"
      by (cases "split_content content")
    from assms have st': "st' = \<lparr>fileUpperContent = AList.update (path_join srcDir fname) upper (fileUpperContent st),
          fileUpperContentTree =
            (case parse (sourceType upper) upper of
               None \<Rightarrow> fileUpperContentTree st
             | Some tree \<Rightarrow> AList.update (path_join srcDir fname) tree (fileUpperContentTree st)),
          fileLowerContent = AList.update (path_join srcDir fname) lower (fileLowerContent st)\<rparr>"
      unfolding load_file_js[where d=d and fname=fname, OF True Some sp] by simp
    have "fileUpperContent st' = AList.update (path_join srcDir fname) upper (fileUpperContent st)"
      "fileLowerContent st' = AList.update (path_join srcDir fname) lower (fileLowerContent st)"
      "fileUpperContentTree st' =
                  (case parse (sourceType upper) upper of
                     None \<Rightarrow> fileUpperContentTree st
                   | Some tree \<Rightarrow> AList.update (path_join srcDir fname) tree (fileUpperContentTree st))"
      unfolding st' by simp_all
    with True Some sp show ?thesis by blast
  qed
qed

lemma js_paths_Cons:
  "js_paths (fname # files) =
     (if path_extname fname = ''.js'' then path_join srcDir fname # js_paths files else js_paths files)"
  by (simp add: js_paths_def)

lemma load_files_step:
  assumes "load_files parse d st (fname # files) = Inr st'"
  obtains st1 where "load_file parse d st fname = Inr st1" "load_files parse d st1 files = Inr st'"
  using assms by (auto split: sum.splits)

lemma load_files_upper_keys:
  "load_files parse d st files = Inr st' \<Longrightarrow>
   fst ` set (fileUpperContent st') = fst ` set (fileUpperContent st) \<union> set (js_paths files)"
proof (induction files arbitrary: st)
  case Nil
  then show ?case by (simp add: js_paths_def)
next
  case (Cons fname files)
  from Cons.prems obtain st1 where st1: "load_file parse d st fname = Inr st1"
    and rest: "load_files parse d st1 files = Inr st'" by (rule load_files_step)
  from load_file_fields[OF st1]
  have "fst ` set (fileUpperContent st1) = fst ` set (fileUpperContent st) \<union> set (js_paths [fname])"
    by (elim disjE exE conjE) (simp_all add: js_paths_Cons js_paths_def keys_update)
  with Cons.IH[OF rest] show ?case by (auto simp: js_paths_def)
qed

lemma load_files_lower_keys:
  "load_files parse d st files = Inr st' \<Longrightarrow>
   fst ` set (fileLowerContent st') = fst ` set (fileLowerContent st) \<union> set (js_paths files)"
proof (induction files arbitrary: st)
  case Nil
  then show ?case by (simp add: js_paths_def)
next
  case (Cons fname files)
  from Cons.prems obtain st1 where st1: "load_file parse d st fname = Inr st1"
    and rest: "load_files parse d st1 files = Inr st'" by (rule load_files_step)
  from load_file_fields[OF st1]
  have "fst ` set (fileLowerContent st1) = fst ` set (fileLowerContent st) \<union> set (js_paths [fname])"
    by (elim disjE exE conjE) (simp_all add: js_paths_Cons js_paths_def keys_update)
  with Cons.IH[OF rest] show ?case by (auto simp: js_paths_def)
qed

lemma load_files_upper_entries:
  "load_files parse d st files = Inr st' \<Longrightarrow> (p, u) \<in> set (fileUpperContent st') \<Longrightarrow>
   (p, u) \<in> set (fileUpperContent st)
   \<or> (\<exists>content. d p = Some content \<and> u = fst (split_content content))"
proof (induction files arbitrary: st)
  case Nil
  then show ?case by simp
next
  case (Cons fname files)
  from Cons.prems(1) obtain st1 where st1: "load_file parse d st fname = Inr st1"
    and rest: "load_files parse d st1 files = Inr st'" by (rule load_files_step)
  from Cons.IH[OF rest Cons.prems(2)] show ?case
  proof
    assume in1: "(p, u) \<in> set (fileUpperContent st1)"
    from load_file_fields[OF st1] show ?thesis
    proof (elim disjE exE conjE)
      assume "st1 = st"
      with in1 show ?thesis by simp
    next
      fix content upper lower
      assume c: "d (path_join srcDir fname) = Some content" "split_content content = (upper, lower)"
        and up: "fileUpperContent st1 = AList.update (path_join srcDir fname) upper (fileUpperContent st)"
      from in1[unfolded up] have "(p, u) \<in> set (fileUpperContent st) \<or> (p, u) = (path_join srcDir fname, upper)"
        by (rule set_update_cases)
      with c show ?thesis by auto
    qed
  next
    assume "\<exists>content. d p = Some content \<and> u = fst (split_content content)"
    then show ?thesis ..
  qed
qed

lemma load_files_lower_entries:
  "load_files parse d st files = Inr st' \<Longrightarrow> (p, l) \<in> set (fileLowerContent st') \<Longrightarrow>
   (p, l) \<in> set (fileLowerContent st)
   \<or> (\<exists>content. d p = Some content \<and> l = snd (split_content content))"
proof (induction files arbitrary: st)
  case Nil
  then show ?case by simp
next
  case (Cons fname files)
  from Cons.prems(1) obtain st1 where st1: "load_file parse d st fname = Inr st1"
    and rest: "load_files parse d st1 files = Inr st'" by (rule load_files_step)
  from Cons.IH[OF rest Cons.prems(2)] show ?case
  proof
    assume in1: "(p, l) \<in> set (fileLowerContent st1)"
    from load_file_fields[OF st1] show ?thesis
    proof (elim disjE exE conjE)
      assume "st1 = st"
      with in1 show ?thesis by simp
    next
      fix content upper lower
      assume c: "d (path_join srcDir fname) = Some content" "split_content content = (upper, lower)"
        and lo: "fileLowerContent st1 = AList.update (path_join srcDir fname) lower (fileLowerContent st)"
      from in1[unfolded lo] have "(p, l) \<in> set (fileLowerContent st) \<or> (p, l) = (path_join srcDir fname, lower)"
        by (rule set_update_cases)
      with c show ?thesis by auto
    qed
  next
    assume "\<exists>content. d p = Some content \<and> l = snd (split_content content)"
    then show ?thesis ..
  qed
qed

lemma load_files_tree_entries:
  "load_files parse d st files = Inr st' \<Longrightarrow> (p, t) \<in> set (fileUpperContentTree st') \<Longrightarrow>
   (p, t) \<in> set (fileUpperContentTree st)
   \<or> (\<exists>content. d p = Some content
         \<and> parse (sourceType (fst (split_content content))) (fst (split_content content)) = Some t)"
proof (induction files arbitrary: st)
  case Nil
  then show ?case by simp
next
  case (Cons fname files)
  from Cons.prems(1) obtain st1 where st1: "load_file parse d st fname = Inr st1"
    and rest: "load_files parse d st1 files = Inr st'" by (rule load_files_step)
  from Cons.IH[OF rest Cons.prems(2)] show ?case
  proof
    assume in1: "(p, t) \<in> set (fileUpperContentTree st1)"
    from load_file_fields[OF st1] show ?thesis
    proof (elim disjE exE conjE)
      assume "st1 = st"
      with in1 show ?thesis by simp
    next
      fix content upper lower
      assume c: "d (path_join srcDir fname) = Some content" "split_content content = (upper, lower)"
        and tr: "fileUpperContentTree st1 =
                  (case parse (sourceType upper) upper of
                     None \<Rightarrow> fileUpperContentTree st
                   | Some tree \<Rightarrow> AList.update (path_join srcDir fname) tree (fileUpperContentTree st))"
      show ?thesis
      proof (cases "parse (sourceType upper) upper")
        case None
        with tr in1 show ?thesis by simp
      next
        case (Some tree)
        with tr in1 have "(p, t) \<in> set (AList.update (path_join srcDir fname) tree (fileUpperContentTree st))"
          by simp
        then have "(p, t) \<in> set (fileUpperContentTree st) \<or> (p, t) = (path_join srcDir fname, tree)"
          by (rule set_update_cases)
        with c Some show ?thesis by auto
      qed
    qed
  next
    assume "\<exists>content. d p = Some content
         \<and> parse (sourceType (fst (split_content content))) (fst (split_content content)) = Some t"
    then show ?thesis ..
  qed
qed

lemma load_files_readable:
  "\<forall>p \<in> set (js_paths files). d p \<noteq> None \<Longrightarrow> \<exists>st'. load_files parse d st files = Inr st'"
proof (induction files arbitrary: st)
  case Nil
  then show ?case by simp
next
  case (Cons fname files)
  have "\<exists>st1. load_file parse d st fname = Inr st1"
  proof (cases "path_extname fname = ''.js''")
    case False
    then show ?thesis by (simp add: load_file_other)
  next
    case True
    with Cons.prems obtain content where c: "d (path_join srcDir fname) = Some content"
      by (auto simp: js_paths_def)
    obtain upper lower where sp: "split_content content = (upper, lower)"
      by (cases "split_content content")
    show ?thesis unfolding load_file_js[where d=d and fname=fname, OF True c sp] by blast
  qed
  then obtain st1 where st1: "load_file parse d st fname = Inr st1" by blast
  from Cons.prems have "\<forall>p \<in> set (js_paths files). d p \<noteq> None" by (auto simp: js_paths_def)
  from Cons.IH[OF this, of st1] st1 show ?case by simp
qed


lemma updatedContent_Inr:
  assumes "updatedContent st p upper = Inr c"
  shows "\<exists>lower rw. map_of (fileLowerContent st) p = Some lower
          \<and> js_replace assignment_re (annotate (fileUpperContentTree st) p) lower = Inr rw
          \<and> c = upper @ rw"
  using assms unfolding updatedContent_def by (auto split: option.splits sum.splits)

lemma write_files_frame:
  "write_files st entries d = (d', err) \<Longrightarrow>
   d' p = d p \<or> (\<exists>u c. (p, u) \<in> set entries \<and> updatedContent st p u = Inr c \<and> d' p = Some c)"
proof (induction entries arbitrary: d)
  case Nil
  then show ?case by simp
next
  case (Cons entry entries)
  obtain q u where entry: "entry = (q, u)" by (cases entry)
  show ?case
  proof (cases "updatedContent st q u")
    case (Inl e)
    with Cons.prems entry show ?thesis by simp
  next
    case (Inr c)
    with Cons.prems entry have "write_files st entries (writeFile d q c) = (d', err)" by simp
    from Cons.IH[OF this] show ?thesis
    proof
      assume same: "d' p = writeFile d q c p"
      show ?thesis
      proof (cases "p = q")
        case True
        with same have "d' p = Some c" by (simp add: writeFile_def)
        with True Inr entry show ?thesis by auto
      next
        case False
        with same show ?thesis by (simp add: writeFile_def)
      qed
    next
      assume "\<exists>u c. (p, u) \<in> set entries \<and> updatedContent st p u = Inr c \<and> d' p = Some c"
      then show ?thesis by auto
    qed
  qed
qed

lemma write_files_all:
  "write_files st entries d = (d', None) \<Longrightarrow> p \<in> fst ` set entries \<Longrightarrow>
   \<exists>u c. (p, u) \<in> set entries \<and> updatedContent st p u = Inr c \<and> d' p = Some c"
proof (induction entries arbitrary: d)
  case Nil
  then show ?case by simp
next
  case (Cons entry entries)
  obtain q u where entry: "entry = (q, u)" by (cases entry)
  show ?case
  proof (cases "updatedContent st q u")
    case (Inl e)
    with Cons.prems entry show ?thesis by simp
  next
    case (Inr c)
    with Cons.prems entry have rest: "write_files st entries (writeFile d q c) = (d', None)" by simp
    show ?thesis
    proof (cases "p \<in> fst ` set entries")
      case True
      from Cons.IH[OF rest True] show ?thesis by auto
    next
      case False
      with Cons.prems(2) entry have pq: "p = q" by auto
      from write_files_frame[OF rest, of p] False have "d' p = writeFile d q c p" by force
      with pq have "d' p = Some c" by (simp add: writeFile_def)
      with pq Inr entry show ?thesis by auto
    qed
  qed
qed

lemma write_files_total:
  "\<forall>(p, u) \<in> set entries. \<exists>c. updatedContent st p u = Inr c \<Longrightarrow>
   \<exists>d'. write_files st entries d = (d', None)"
proof (induction entries arbitrary: d)
  case Nil
  then show ?case by simp
next
  case (Cons entry entries)
  obtain q u where entry: "entry = (q, u)" by (cases entry)
  with Cons.prems obtain c where c: "updatedContent st q u = Inr c" by auto
  from Cons.prems have "\<forall>(p, u) \<in> set entries. \<exists>c. updatedContent st p u = Inr c" by simp
  from Cons.IH[OF this, of "writeFile d q c"] entry c show ?case by simp
qed

lemma js_paths_mem:
  "p \<in> set (js_paths files) \<longleftrightarrow>
   (\<exists>fname \<in> set files. path_extname fname = ''.js'' \<and> p = path_join srcDir fname)"
  by (auto simp: js_paths_def)

lemma no_files_fields [simp]:
  "fileUpperContent no_files = []" "fileLowerContent no_files = []"
  "fileUpperContentTree no_files = []"
  by (simp_all add: no_files_def)

lemma loaded_entry_written:
  assumes load: "load_files parse d no_files files = Inr st"
    and "(p, u) \<in> set (fileUpperContent st)"
    and "updatedContent st p u = Inr c"
  shows "\<exists>content upper lower rw.
           d p = Some content \<and> split_content content = (upper, lower)
         \<and> js_replace assignment_re (annotate (fileUpperContentTree st) p) lower = Inr rw
         \<and> c = upper @ rw"
proof -
  from load_files_upper_entries[OF load assms(2)] obtain content where
    content: "d p = Some content" "u = fst (split_content content)" by auto
  from updatedContent_Inr[OF assms(3)] obtain lower rw where
    lower: "map_of (fileLowerContent st) p = Some lower"
    and rw: "js_replace assignment_re (annotate (fileUpperContentTree st) p) lower = Inr rw"
    and c: "c = u @ rw" by blast
  from lower have "(p, lower) \<in> set (fileLowerContent st)" by (rule map_of_SomeD)
  from load_files_lower_entries[OF load this] content(1)
  have "lower = snd (split_content content)" by auto
  with content(2) have "split_content content = (u, lower)" by simp
  with content(1) rw c show ?thesis by blast
qed

text \<open>
  C8. After a run every file on the disk is either as it was or holds its upper content,
  unchanged, followed by its rewritten lower content, in which only texts matched by the
  assignment pattern are replaced; upper and lower content together are the old content.
  When the run ends without an error, every \<open>.js\<close> entry of the directory has been
  written so.
\<close>

theorem written_content_frame:
  assumes "processFiles parse (Inr files) d = (d', err)"
  shows "(\<forall>filePath.
            d' filePath = d filePath
          \<or> (\<exists>content upper lower rw.
                d filePath = Some content \<and> split_content content = (upper, lower)
              \<and> content = upper @ lower \<and> rewritten assignment_re lower rw
              \<and> d' filePath = Some (upper @ rw)))
       \<and> (err = None \<longrightarrow>
            (\<forall>fname \<in> set files. path_extname fname = ''.js'' \<longrightarrow>
               (\<exists>content upper lower rw.
                  d (path_join srcDir fname) = Some content
                \<and> split_content content = (upper, lower)
                \<and> content = upper @ lower \<and> rewritten assignment_re lower rw
                \<and> d' (path_join srcDir fname) = Some (upper @ rw))))"
proof (cases "load_files parse d no_files files")
  case (Inl e)
  with assms have "d' = d" "err = Some e" by (simp_all add: processFiles_def)
  then show ?thesis by simp
next
  case (Inr st)
  with assms have wf: "write_files st (fileUpperContent st) d = (d', err)"
    by (simp add: processFiles_def)
  have written: "\<exists>content upper lower rw.
                d p = Some content \<and> split_content content = (upper, lower)
              \<and> content = upper @ lower \<and> rewritten assignment_re lower rw
              \<and> d' p = Some (upper @ rw)"
    if "(p, u) \<in> set (fileUpperContent st)" "updatedContent st p u = Inr c" "d' p = Some c"
    for p u c
  proof -
    from loaded_entry_written[OF Inr that(1,2)] obtain content upper lower rw where
      h: "d p = Some content" "split_content content = (upper, lower)"
         "js_replace assignment_re (annotate (fileUpperContentTree st) p) lower = Inr rw"
         "c = upper @ rw" by blast
    from h(2) have "content = upper @ lower" by (rule split_content_append)
    moreover from h(3) have "rewritten assignment_re lower rw" by (rule js_replace_rewritten)
    ultimately show ?thesis using h that(3) by blast
  qed
  show ?thesis
  proof (intro conjI allI impI ballI)
    fix filePath
    from write_files_frame[OF wf, of filePath] written[of filePath]
    show "d' filePath = d filePath
          \<or> (\<exists>content upper lower rw.
                d filePath = Some content \<and> split_content content = (upper, lower)
              \<and> content = upper @ lower \<and> rewritten assignment_re lower rw
              \<and> d' filePath = Some (upper @ rw))"
      by blast
  next
    fix fname
    assume "err = None" and f: "fname \<in> set files" "path_extname fname = ''.js''"
    with wf have wf': "write_files st (fileUpperContent st) d = (d', None)" by simp
    from f have "path_join srcDir fname \<in> set (js_paths files)" by (auto simp: js_paths_mem)
    with load_files_upper_keys[OF Inr] have "path_join srcDir fname \<in> fst ` set (fileUpperContent st)"
      by simp
    from write_files_all[OF wf' this] written[of "path_join srcDir fname"]
    show "\<exists>content upper lower rw.
                  d (path_join srcDir fname) = Some content
                \<and> split_content content = (upper, lower)
                \<and> content = upper @ lower \<and> rewritten assignment_re lower rw
                \<and> d' (path_join srcDir fname) = Some (upper @ rw)"
      by blast
  qed
qed


theorem written_content_frame_witness:
  "\<exists>d'. processFiles parse_blank (Inr corpus_files) corpus_disk = (d', None)
      \<and> (\<exists>content upper lower rw.
            corpus_disk (path_join srcDir ''a.js'') = Some content
          \<and> split_content content = (upper, lower)
          \<and> content = upper @ lower \<and> rewritten assignment_re lower rw
          \<and> d' (path_join srcDir ''a.js'') = Some (upper @ rw))"
proof -
  have e: "snd (processFiles parse_blank (Inr corpus_files) corpus_disk) = None" by code_simp
  then obtain d' where run: "processFiles parse_blank (Inr corpus_files) corpus_disk = (d', None)"
    by (cases "processFiles parse_blank (Inr corpus_files) corpus_disk") auto
  have f: "''a.js'' \<in> set corpus_files" by (simp add: corpus_files_def)
  have x: "path_extname ''a.js'' = ''.js''" by code_simp
  from written_content_frame[OF run] f x run show ?thesis by blast
qed

lemma load_files_tree_keys:
  "load_files parse d st files = Inr st' \<Longrightarrow>
   fst ` set (fileUpperContentTree st') \<subseteq> fst ` set (fileUpperContentTree st) \<union> set (js_paths files)"
proof (induction files arbitrary: st)
  case Nil
  then show ?case by (simp add: js_paths_def)
next
  case (Cons fname files)
  from Cons.prems obtain st1 where st1: "load_file parse d st fname = Inr st1"
    and rest: "load_files parse d st1 files = Inr st'" by (rule load_files_step)
  from load_file_fields[OF st1]
  have "fst ` set (fileUpperContentTree st1)
          \<subseteq> fst ` set (fileUpperContentTree st) \<union> set (js_paths [fname])"
    by (elim disjE exE conjE)
       (auto simp: js_paths_Cons js_paths_def keys_update split: option.splits)
  moreover have "set (js_paths (fname # files)) = set (js_paths [fname]) \<union> set (js_paths files)"
    by (simp add: js_paths_def)
  ultimately show ?case using Cons.IH[OF rest] by blast
qed

lemma annotate_total:
  assumes "\<forall>(q, t) \<in> set trees. named_imports_only t"
  shows "\<exists>r. annotate trees p m caps = Inr r"
proof -
  from assms have "\<forall>(q, t) \<in> set trees. q \<notin> set [p] \<longrightarrow> named_imports_only t" by auto
  from findDependencies_total[OF this] obtain deps where
    "findDependencies (capture caps 2) trees [p] = Inr deps" by blast
  then show ?thesis by (simp add: annotate_def Let_def)
qed

text \<open>
  C5. Let every \<open>.js\<close> entry be readable and let the entries that parse have named import
  specifiers only (so that no scan ends in a TypeError). A file whose upper content does
  not parse has no entry in the tree map and is in no dependency report; the run ends
  without an error, the file is written with its upper content and its rewritten lower
  content, and so is every other \<open>.js\<close> entry.
\<close>

theorem parse_failure_isolated:
  assumes readable: "\<forall>p \<in> set (js_paths files). d p \<noteq> None"
    and named: "\<forall>g \<in> set files. path_extname g = ''.js'' \<longrightarrow>
                  (\<forall>c t. d (path_join srcDir g) = Some c \<longrightarrow>
                     parse (sourceType (fst (split_content c))) (fst (split_content c)) = Some t \<longrightarrow>
                     named_imports_only t)"
    and fname: "fname \<in> set files" "path_extname fname = ''.js''"
    and content: "d (path_join srcDir fname) = Some content"
      "split_content content = (upper, lower)"
    and fails: "parse (sourceType upper) upper = None"
  shows "\<exists>st d'.
           load_files parse d no_files files = Inr st
         \<and> path_join srcDir fname \<notin> fst ` set (fileUpperContentTree st)
         \<and> (\<forall>ident excl deps. findDependencies ident (fileUpperContentTree st) excl = Inr deps
               \<longrightarrow> path_join srcDir fname \<notin> set deps)
         \<and> processFiles parse (Inr files) d = (d', None)
         \<and> (\<exists>rw. js_replace assignment_re
                     (annotate (fileUpperContentTree st) (path_join srcDir fname)) lower = Inr rw
                 \<and> d' (path_join srcDir fname) = Some (upper @ rw))
         \<and> (\<forall>g \<in> set files. path_extname g = ''.js'' \<longrightarrow>
               (\<exists>c u l rw. d (path_join srcDir g) = Some c \<and> split_content c = (u, l)
                  \<and> js_replace assignment_re
                       (annotate (fileUpperContentTree st) (path_join srcDir g)) l = Inr rw
                  \<and> d' (path_join srcDir g) = Some (u @ rw)))"
proof -
  from load_files_readable[OF readable] obtain st where
    load: "load_files parse d no_files files = Inr st" by blast
  have absent: "path_join srcDir fname \<notin> fst ` set (fileUpperContentTree st)"
  proof
    assume "path_join srcDir fname \<in> fst ` set (fileUpperContentTree st)"
    then obtain t where "(path_join srcDir fname, t) \<in> set (fileUpperContentTree st)" by auto
    from load_files_tree_entries[OF load this] content fails show False by auto
  qed
  have unreported: "path_join srcDir fname \<notin> set deps"
    if "findDependencies ident (fileUpperContentTree st) excl = Inr deps" for ident excl deps
  proof
    assume "path_join srcDir fname \<in> set deps"
    from findDependencies_member[OF that this] absent show False by force
  qed
  have trees_named: "\<forall>(q, t) \<in> set (fileUpperContentTree st). named_imports_only t"
  proof (clarify)
    fix q t assume in_t: "(q, t) \<in> set (fileUpperContentTree st)"
    from load_files_tree_keys[OF load] in_t have "q \<in> set (js_paths files)" by force
    then obtain g where g: "g \<in> set files" "path_extname g = ''.js''" "q = path_join srcDir g"
      by (auto simp: js_paths_mem)
    from load_files_tree_entries[OF load in_t] obtain c where
      "d q = Some c" "parse (sourceType (fst (split_content c))) (fst (split_content c)) = Some t"
      by auto
    with named g show "named_imports_only t" by blast
  qed
  have upd: "\<exists>c. updatedContent st p u = Inr c" if "(p, u) \<in> set (fileUpperContent st)" for p u
  proof -
    from that have "p \<in> fst ` set (fileUpperContent st)" by force
    with load_files_upper_keys[OF load] load_files_lower_keys[OF load]
    have "p \<in> fst ` set (fileLowerContent st)" by simp
    then obtain l where l: "map_of (fileLowerContent st) p = Some l"
      by (metis domD dom_map_of_conv_image_fst)
    from js_replace_total[of "annotate (fileUpperContentTree st) p" assignment_re l]
      annotate_total[OF trees_named]
    obtain rw where "js_replace assignment_re (annotate (fileUpperContentTree st) p) l = Inr rw"
      by blast
    with l show ?thesis by (simp add: updatedContent_def)
  qed
  then have "\<forall>(p, u) \<in> set (fileUpperContent st). \<exists>c. updatedContent st p u = Inr c" by auto
  from write_files_total[OF this] obtain d' where
    wf: "write_files st (fileUpperContent st) d = (d', None)" by blast
  with load have run: "processFiles parse (Inr files) d = (d', None)"
    by (simp add: processFiles_def)
  have each: "\<exists>c u l rw. d (path_join srcDir g) = Some c \<and> split_content c = (u, l)
                  \<and> js_replace assignment_re
                       (annotate (fileUpperContentTree st) (path_join srcDir g)) l = Inr rw
                  \<and> d' (path_join srcDir g) = Some (u @ rw)"
    if "g \<in> set files" "path_extname g = ''.js''" for g
  proof -
    from that have "path_join srcDir g \<in> set (js_paths files)" by (auto simp: js_paths_mem)
    with load_files_upper_keys[OF load] have "path_join srcDir g \<in> fst ` set (fileUpperContent st)"
      by simp
    from write_files_all[OF wf this] obtain u c where
      e: "(path_join srcDir g, u) \<in> set (fileUpperContent st)"
         "updatedContent st (path_join srcDir g) u = Inr c" "d' (path_join srcDir g) = Some c"
      by blast
    from loaded_entry_written[OF load e(1,2)] e(3) show ?thesis by blast
  qed
  from each[OF fname] content obtain rw where
    own: "js_replace assignment_re
            (annotate (fileUpperContentTree st) (path_join srcDir fname)) lower = Inr rw"
         "d' (path_join srcDir fname) = Some (upper @ rw)"
    by auto
  from load absent unreported run own each show ?thesis by blast
qed


theorem parse_failure_isolated_witness:
  "(case processFiles parse_blank (Inr corpus_files) corpus_disk of
      (d', e) \<Rightarrow> (e, d' ''src/a.js'', d' ''src/c.js''))
     = (None, Some (''// Temporary globals'' @ [CHR 0x0A] @ ''// window.foo = 1; // unused''),
        Some ''foo(;'')
   \<and> (\<exists>st d'. load_files parse_blank corpus_disk no_files corpus_files = Inr st
         \<and> path_join srcDir ''c.js'' \<notin> fst ` set (fileUpperContentTree st)
         \<and> processFiles parse_blank (Inr corpus_files) corpus_disk = (d', None))"
proof -
  have h1: "\<forall>p \<in> set (js_paths corpus_files). corpus_disk p \<noteq> None" by code_simp
  have h2: "\<forall>g \<in> set corpus_files. path_extname g = ''.js'' \<longrightarrow>
              (\<forall>c t. corpus_disk (path_join srcDir g) = Some c \<longrightarrow>
                 parse_blank (sourceType (fst (split_content c))) (fst (split_content c)) = Some t \<longrightarrow>
                 named_imports_only t)"
    by (simp add: parse_blank_def named_imports_only_def)
  have h3: "''c.js'' \<in> set corpus_files" by (simp add: corpus_files_def)
  have h4: "path_extname ''c.js'' = ''.js''" by code_simp
  have h5: "corpus_disk (path_join srcDir ''c.js'') = Some ''foo(;''" by code_simp
  have h6: "split_content ''foo(;'' = (''foo(;'', [])" by code_simp
  have h7: "parse_blank (sourceType ''foo(;'') ''foo(;'' = None" by (simp add: parse_blank_def)
  have run: "(case processFiles parse_blank (Inr corpus_files) corpus_disk of
      (d', e) \<Rightarrow> (e, d' ''src/a.js'', d' ''src/c.js''))
     = (None, Some (''// Temporary globals'' @ [CHR 0x0A] @ ''// window.foo = 1; // unused''),
        Some ''foo(;'')" by code_simp
  from parse_failure_isolated[where parse=parse_blank and d=corpus_disk and files=corpus_files
        and fname="''c.js''", OF h1 h2 h3 h4 h5 h6 h7] run
  show ?thesis by blast
qed

end
